theory Spec2Isabelle
  imports Main "HOL-Library.Word"
begin

section \<open>The NetLog file observer (net/log/file_net_log_observer.cc)\<close>

text \<open>
  A shallow embedding of the bounded/unbounded rotating log writer: the write queue
  shared between the producer and the file task runner, the observer front end and the
  file writer with its chunk ring and stitching step. Each function of the source is a
  function here, under its own name, that takes the state it reads and returns the
  state it leaves. The subscription to the NetLog, the destructor and the reply callback
  of \<^verbatim>\<open>StopObserving\<close> are left out; \<^verbatim>\<open>DCHECK\<close>s are the release build's, no-ops.

  \<^verbatim>\<open>size_t\<close> is a 64-bit unsigned word: \<open>+\<close>, \<open>-\<close> and \<open>*\<close> wrap around as in C++.
  A \<^verbatim>\<open>std::string\<close> is a \<open>string\<close>, its \<^verbatim>\<open>size()\<close> the length as a \<^verbatim>\<open>size_t\<close>.
\<close>

type_synonym size_t = "64 word"

definition kNoLimit :: size_t where
  "kNoLimit = - 1"

definition kNumWriteQueueEvents :: int where
  "kNumWriteQueueEvents = 15"

definition string_size :: "string \<Rightarrow> size_t" where
  "string_size s = of_nat (length s)"

subsection \<open>WriteQueue\<close>

text \<open>
  \<^verbatim>\<open>EventQueue\<close> is a \<^verbatim>\<open>std::queue\<close> of owned strings: a list whose head is the front.
  The lock is not modelled: every operation below runs as one atomic step, which is what
  holding \<^verbatim>\<open>lock_\<close> for the whole body gives. Member names drop the trailing
  underscore of the source (\<^verbatim>\<open>queue_\<close> is \<open>queue\<close>), which an Isabelle name cannot end in.
\<close>

type_synonym EventQueue = "string list"

record WriteQueue =
  queue :: EventQueue
  memory :: size_t
  memory_max :: size_t

definition WriteQueue_new :: "size_t \<Rightarrow> WriteQueue" where
  "WriteQueue_new cap = \<lparr>queue = [], memory = 0, memory_max = cap\<rparr>"

text \<open>The loop of \<^verbatim>\<open>AddEntryToQueue\<close>: delete the oldest events while over the cap.\<close>

function drop_oldest :: "WriteQueue \<Rightarrow> WriteQueue" where
  "drop_oldest q =
     (if memory q > memory_max q \<and> queue q \<noteq> []
      then drop_oldest (q\<lparr>memory := memory q - string_size (hd (queue q)),
                           queue := tl (queue q)\<rparr>)
      else q)"
  by pat_completeness auto
termination
  by (relation "measure (\<lambda>q. length (queue q))") auto

declare drop_oldest.simps [simp del]

definition AddEntryToQueue :: "WriteQueue \<Rightarrow> string \<Rightarrow> WriteQueue \<times> size_t" where
  "AddEntryToQueue q event =
     (let q1 = q\<lparr>memory := memory q + string_size event\<rparr>;
          q2 = q1\<lparr>queue := queue q1 @ [event]\<rparr>;
          q3 = drop_oldest q2
      in (q3, of_nat (length (queue q3))))"

text \<open>
  \<^verbatim>\<open>SwapQueue\<close> exchanges \<^verbatim>\<open>queue_\<close> with the caller's queue and resets the counter;
  the result is the new write queue and the caller's queue after the swap.
\<close>

definition SwapQueue :: "WriteQueue \<Rightarrow> EventQueue \<Rightarrow> WriteQueue \<times> EventQueue" where
  "SwapQueue q local_queue = (q\<lparr>queue := local_queue, memory := 0\<rparr>, queue q)"

text \<open>The bytes really held by a queue, as a natural number.\<close>

definition queue_bytes :: "EventQueue \<Rightarrow> nat" where
  "queue_bytes es = sum_list (map length es)"

subsection \<open>The disk and the C streams\<close>

text \<open>
  The file system is a map from paths to contents. A non-null \<^verbatim>\<open>FILE*\<close> is identified by
  the path it was opened on; the position of that stream is kept with the disk, since the
  source mutates the stream through the pointer. A \<^verbatim>\<open>FILE*\<close> that may be null is a
  \<open>FILE option\<close>, and every primitive below takes a non-null stream: the source's null
  checks are the \<open>case\<close> distinctions of the callers.

  What the environment decides is part of the disk: \<open>openable\<close> says on which paths
  \<^verbatim>\<open>fopen\<close> and \<^verbatim>\<open>mkdir\<close> succeed, and \<open>room\<close> is the number of bytes the device
  still accepts. Directories are not tracked beyond that.

  The C library buffers a stream: \<^verbatim>\<open>fwrite\<close> puts the bytes in the buffer of the stream,
  and they reach the file when the buffer is full, at \<^verbatim>\<open>fflush\<close>, at \<^verbatim>\<open>fseek\<close> and at
  \<^verbatim>\<open>fclose\<close>. The map \<open>files\<close> holds each file as it reads once the stream on it is
  flushed or closed: the bytes still in a buffer are part of it. So \<^verbatim>\<open>fflush\<close> and
  \<^verbatim>\<open>fclose\<close> change nothing here, with one exception, \<open>fclose_replaced\<close> below: the
  closing of a stream whose file another \<^verbatim>\<open>fopen\<close> has truncated in the meantime.
\<close>

type_synonym path = string

type_synonym FILE = path

record disk =
  files :: "path \<Rightarrow> string option"
  pos :: "path \<Rightarrow> nat"
  room :: nat
  openable :: "path \<Rightarrow> bool"

definition contents :: "disk \<Rightarrow> path \<Rightarrow> string" where
  "contents d p = (case files d p of None \<Rightarrow> [] | Some s \<Rightarrow> s)"

text \<open>\<^verbatim>\<open>fopen(path, "wb")\<close>: truncate or create, position 0.\<close>

definition fopen_wb :: "path \<Rightarrow> disk \<Rightarrow> FILE option \<times> disk" where
  "fopen_wb p d =
     (if openable d p
      then (Some p, d\<lparr>files := (files d)(p \<mapsto> []), pos := (pos d)(p := 0)\<rparr>)
      else (None, d))"

text \<open>\<^verbatim>\<open>fopen(path, "rb")\<close>: the result is the unread rest of the source, if it opens.\<close>

definition fopen_rb :: "path \<Rightarrow> disk \<Rightarrow> string option" where
  "fopen_rb p d = (if openable d p then files d p else None)"

text \<open>
  The buffer of a stream has \<^verbatim>\<open>BUFSIZ\<close> bytes, here the 4096 of a file system block. The
  library fills it, writes it out when a write finds it full, and writes the whole
  blocks of a longer piece without the buffer. A stream that was opened for writing and
  only written to, as the chunks are, therefore holds in its buffer the bytes behind the
  last block boundary before its position, between 1 and \<^verbatim>\<open>BUFSIZ\<close> of them once it has
  taken a byte: \<open>buffer_text\<close>, which starts at the offset \<open>pos - buffered\<close> of the file.
\<close>

definition BUFSIZ :: nat where
  "BUFSIZ = 4096"

definition buffered :: "disk \<Rightarrow> FILE \<Rightarrow> nat" where
  "buffered d f = (if pos d f = 0 then 0 else (pos d f - 1) mod BUFSIZ + 1)"

definition buffer_text :: "disk \<Rightarrow> FILE \<Rightarrow> string" where
  "buffer_text d f = take (buffered d f) (drop (pos d f - buffered d f) (contents d f))"

text \<open>
  \<^verbatim>\<open>fwrite(data, 1, size, file)\<close>: the bytes go over the file at the position of the
  stream. A write that fits in the space left in the buffer returns its full size,
  whatever the device: nothing is written out yet. Any other write returns the count
  that the device took. The bytes for which the device has no room are lost, and never
  show in \<open>files\<close>.
\<close>

definition fwrite :: "string \<Rightarrow> FILE \<Rightarrow> disk \<Rightarrow> nat \<times> disk" where
  "fwrite data f d =
     (let stored = min (length data) (room d);
          n = (if length data < BUFSIZ \<and> buffered d f + length data \<le> BUFSIZ
               then length data else stored);
          old = contents d f;
          new = take (pos d f) old @ take stored data @ drop (pos d f + stored) old
      in (n, d\<lparr>files := (files d)(f \<mapsto> new), pos := (pos d)(f := pos d f + n),
                room := room d - stored\<rparr>))"

text \<open>
  \<^verbatim>\<open>fclose\<close> of the stream \<open>f\<close>, held by a \<^verbatim>\<open>ScopedFILE\<close> that is assigned the stream
  \<open>new_file\<close>: the new stream was opened first, on the disk \<open>d_old\<close>, and the old one
  is closed after that, on the disk \<open>d\<close> which that \<^verbatim>\<open>fopen\<close> left. When both are on the
  same path the new stream has truncated the file of the old one, and the closing writes
  the buffer of the old stream into the emptied file, at the offset where the buffer
  starts; the bytes before it read as NUL. In every other case the closing changes
  nothing.
\<close>

definition fclose_replaced :: "FILE \<Rightarrow> FILE option \<Rightarrow> disk \<Rightarrow> disk \<Rightarrow> disk" where
  "fclose_replaced f new_file d_old d =
     (if new_file = Some f \<and> 0 < buffered d_old f
      then d\<lparr>files := (files d)(f \<mapsto> replicate (pos d_old f - buffered d_old f) (CHR 0x00)
                                        @ buffer_text d_old f)\<rparr>
      else d)"

text \<open>\<^verbatim>\<open>fseek(file, -2, SEEK_END)\<close>: fails, leaving the position, on a file shorter than 2.\<close>

definition fseek_end_minus2 :: "FILE \<Rightarrow> disk \<Rightarrow> disk" where
  "fseek_end_minus2 f d =
     (if 2 \<le> length (contents d f) then d\<lparr>pos := (pos d)(f := length (contents d f) - 2)\<rparr>
      else d)"

text \<open>\<^verbatim>\<open>base::DeleteFile(path, recursive)\<close> and \<^verbatim>\<open>base::CreateDirectory(path)\<close>.\<close>

definition is_under :: "path \<Rightarrow> path \<Rightarrow> bool" where
  "is_under dir p = (take (length dir + 1) p = dir @ ''/'')"

definition DeleteFile :: "path \<Rightarrow> bool \<Rightarrow> disk \<Rightarrow> disk" where
  "DeleteFile p recursive d =
     d\<lparr>files := (\<lambda>q. if q = p \<or> (recursive \<and> is_under p q) then None else files d q)\<rparr>"

definition CreateDirectory :: "path \<Rightarrow> disk \<Rightarrow> bool" where
  "CreateDirectory p d = openable d p"

subsection \<open>Helpers of the anonymous namespace\<close>

definition OpenFileForWrite :: "path \<Rightarrow> disk \<Rightarrow> FILE option \<times> disk" where
  "OpenFileForWrite p d = fopen_wb p d"

definition WriteToFile ::
  "FILE option \<Rightarrow> string \<Rightarrow> string \<Rightarrow> string \<Rightarrow> disk \<Rightarrow> size_t \<times> disk" where
  "WriteToFile file data1 data2 data3 d =
     (case file of
        None \<Rightarrow> (0, d)
      | Some f \<Rightarrow>
          (let (n1, d1) = (if data1 \<noteq> [] then fwrite data1 f d else (0, d));
               (n2, d2) = (if data2 \<noteq> [] then fwrite data2 f d1 else (0, d1));
               (n3, d3) = (if data3 \<noteq> [] then fwrite data3 f d2 else (0, d2))
           in (of_nat n1 + of_nat n2 + of_nat n3, d3)))"

text \<open>
  The read loop of \<^verbatim>\<open>AppendToFileThenDelete\<close>: \<^verbatim>\<open>fread\<close> returns up to
  \<open>read_buffer_size\<close> bytes of the rest of the source, and the loop ends when it returns 0.
\<close>

function copy_chunks :: "nat \<Rightarrow> FILE option \<Rightarrow> string \<Rightarrow> disk \<Rightarrow> disk" where
  "copy_chunks read_buffer_size destination_file rest d =
     (let chunk = take read_buffer_size rest
      in if length chunk > 0
         then copy_chunks read_buffer_size destination_file (drop read_buffer_size rest)
                (snd (WriteToFile destination_file chunk [] [] d))
         else d)"
  by pat_completeness auto
termination
  by (relation "measure (\<lambda>(n, f, rest, d). length rest)") auto

declare copy_chunks.simps [simp del]

definition AppendToFileThenDelete :: "path \<Rightarrow> FILE option \<Rightarrow> nat \<Rightarrow> disk \<Rightarrow> disk" where
  "AppendToFileThenDelete source_path destination_file read_buffer_size d =
     (case fopen_rb source_path d of
        None \<Rightarrow> d
      | Some source \<Rightarrow>
          DeleteFile source_path False
            (copy_chunks read_buffer_size destination_file source d))"

subsection \<open>FileWriter\<close>

record FileWriter =
  final_log_path :: path
  final_log_file :: "FILE option"
  current_event_file :: "FILE option"
  current_event_file_size :: size_t
  total_num_event_files :: size_t
  current_event_file_number :: size_t
  max_event_file_size :: size_t
  wrote_event_bytes :: bool

text \<open>
  The constructor does not initialise \<^verbatim>\<open>current_event_file_size_\<close>: its first value is
  whatever the memory held, the argument \<open>indeterminate\<close>.
\<close>

definition FileWriter_new :: "path \<Rightarrow> size_t \<Rightarrow> size_t \<Rightarrow> size_t \<Rightarrow> FileWriter" where
  "FileWriter_new log_path max_size num_files indeterminate =
     \<lparr>final_log_path = log_path,
      final_log_file = None,
      current_event_file = None,
      current_event_file_size = indeterminate,
      total_num_event_files = num_files,
      current_event_file_number = 0,
      max_event_file_size = max_size,
      wrote_event_bytes = False\<rparr>"

definition IsUnbounded :: "FileWriter \<Rightarrow> bool" where
  "IsUnbounded fw = (max_event_file_size fw = kNoLimit)"

definition IsBounded :: "FileWriter \<Rightarrow> bool" where
  "IsBounded fw = (\<not> IsUnbounded fw)"

text \<open>\<^verbatim>\<open>base::SizeTToString\<close>: the decimal digits.\<close>

function decimal :: "nat \<Rightarrow> string" where
  "decimal n =
     (if n < 10 then [''0123456789'' ! n]
      else decimal (n div 10) @ [''0123456789'' ! (n mod 10)])"
  by pat_completeness auto
termination
  by (relation "measure id") auto

declare decimal.simps [simp del]

definition SizeTToString :: "size_t \<Rightarrow> string" where
  "SizeTToString n = decimal (unat n)"

definition GetInprogressDirectory :: "FileWriter \<Rightarrow> path" where
  "GetInprogressDirectory fw = final_log_path fw @ ''.inprogress''"

definition GetEventFilePath :: "FileWriter \<Rightarrow> size_t \<Rightarrow> path" where
  "GetEventFilePath fw index =
     GetInprogressDirectory fw @ ''/'' @ (''event_file_'' @ SizeTToString index @ ''.json'')"

definition GetConstantsFilePath :: "FileWriter \<Rightarrow> path" where
  "GetConstantsFilePath fw = GetInprogressDirectory fw @ ''/'' @ ''constants.json''"

definition GetClosingFilePath :: "FileWriter \<Rightarrow> path" where
  "GetClosingFilePath fw = GetInprogressDirectory fw @ ''/'' @ ''end_netlog.json''"

definition FileNumberToIndex :: "FileWriter \<Rightarrow> size_t \<Rightarrow> size_t" where
  "FileNumberToIndex fw file_number = (file_number - 1) mod total_num_event_files fw"

text \<open>
  The assignment to \<^verbatim>\<open>current_event_file_\<close> opens the next chunk and then closes the
  stream of the chunk before, if there is one. In a ring of one chunk the two are the
  same file.
\<close>

definition IncrementCurrentEventFile :: "FileWriter \<times> disk \<Rightarrow> FileWriter \<times> disk" where
  "IncrementCurrentEventFile s =
     (let (fw, d) = s;
          fw1 = fw\<lparr>current_event_file_number := current_event_file_number fw + 1\<rparr>;
          (h, d1) = OpenFileForWrite
                      (GetEventFilePath fw1
                         (FileNumberToIndex fw1 (current_event_file_number fw1))) d;
          d2 = (case current_event_file fw1 of
                  None \<Rightarrow> d1
                | Some f \<Rightarrow> fclose_replaced f h d d1)
      in (fw1\<lparr>current_event_file := h, current_event_file_size := 0\<rparr>, d2))"

text \<open>
  \<^verbatim>\<open>base::JSONWriter::Write(value, &json)\<close> is external: a function from values to the
  success flag and the text left in \<^verbatim>\<open>json\<close>.
\<close>

type_synonym 'v JSONWriter = "'v \<Rightarrow> bool \<times> string"

definition WriteConstantsToFile :: "'v JSONWriter \<Rightarrow> 'v \<Rightarrow> FILE option \<Rightarrow> disk \<Rightarrow> disk" where
  \<open>WriteConstantsToFile jw constants_value file d =
     (let json = snd (jw constants_value)
      in snd (WriteToFile file ''{"constants":'' json '',\<newline>"events": [\<newline>'' d))\<close>

definition CreateInprogressDirectory :: "FileWriter \<Rightarrow> disk \<Rightarrow> disk" where
  "CreateInprogressDirectory fw d =
     (if final_log_file fw = None then d
      else if \<not> CreateDirectory (GetInprogressDirectory fw) d then d
      else snd (WriteToFile (final_log_file fw)
                  ''Log data is being written to the XXX.inprogress directory'' [] [] d))"

definition Initialize :: "'v JSONWriter \<Rightarrow> 'v \<Rightarrow> FileWriter \<times> disk \<Rightarrow> FileWriter \<times> disk" where
  "Initialize jw constants_value s =
     (let (fw, d) = s;
          (h, d1) = OpenFileForWrite (final_log_path fw) d;
          fw1 = fw\<lparr>final_log_file := h\<rparr>
      in if IsBounded fw1
         then (let d2 = CreateInprogressDirectory fw1 d1;
                   (constants_file, d3) = OpenFileForWrite (GetConstantsFilePath fw1) d2
               in (fw1, WriteConstantsToFile jw constants_value constants_file d3))
         else (fw1, WriteConstantsToFile jw constants_value (final_log_file fw1) d1))"

definition WritePolledDataToFile ::
  "'v JSONWriter \<Rightarrow> 'v option \<Rightarrow> FILE option \<Rightarrow> disk \<Rightarrow> disk" where
  \<open>WritePolledDataToFile jw polled_data file d =
     (let d1 = snd (WriteToFile file '']'' [] [] d);
          d2 = (case polled_data of
                  None \<Rightarrow> d1
                | Some v \<Rightarrow>
                    (let polled_data_json = snd (jw v)
                     in if polled_data_json \<noteq> []
                        then snd (WriteToFile file '',\<newline>"polledData": '' polled_data_json
                                    ''\<newline>'' d1)
                        else d1))
      in snd (WriteToFile file ''}\<newline>'' [] [] d2))\<close>

definition RewindIfWroteEventBytes :: "FileWriter \<Rightarrow> FILE option \<Rightarrow> disk \<Rightarrow> disk" where
  "RewindIfWroteEventBytes fw file d =
     (case file of
        None \<Rightarrow> d
      | Some f \<Rightarrow> if wrote_event_bytes fw then fseek_end_minus2 f d else d)"

text \<open>The body of the \<^verbatim>\<open>while\<close> loop of \<^verbatim>\<open>Flush\<close>, for the front \<open>event\<close> of the local queue.\<close>

definition Flush_event :: "string \<Rightarrow> FileWriter \<times> disk \<Rightarrow> FileWriter \<times> disk" where
  \<open>Flush_event event s =
     (let (fw1, d1) =
            (if IsBounded (fst s)
             then (if current_event_file_number (fst s) = 0
                      \<or> current_event_file_size (fst s) \<ge> max_event_file_size (fst s)
                   then IncrementCurrentEventFile s else s)
             else s);
          output_file = (if IsBounded fw1 then current_event_file fw1 else final_log_file fw1);
          (bytes_written, d2) = WriteToFile output_file event '',\<newline>'' [] d1;
          fw2 = fw1\<lparr>wrote_event_bytes := (wrote_event_bytes fw1 \<or> bytes_written > 0)\<rparr>;
          fw3 = (if IsBounded fw2
                 then fw2\<lparr>current_event_file_size := current_event_file_size fw2 + bytes_written\<rparr>
                 else fw2)
      in (fw3, d2))\<close>

fun Flush_loop :: "EventQueue \<Rightarrow> FileWriter \<times> disk \<Rightarrow> FileWriter \<times> disk" where
  "Flush_loop [] s = s"
| "Flush_loop (event # local_file_queue) s = Flush_loop local_file_queue (Flush_event event s)"

definition Flush :: "WriteQueue \<Rightarrow> FileWriter \<times> disk \<Rightarrow> WriteQueue \<times> FileWriter \<times> disk" where
  "Flush write_queue s =
     (let (write_queue1, local_file_queue) = SwapQueue write_queue []
      in (write_queue1, Flush_loop local_file_queue s))"

text \<open>
  The \<^verbatim>\<open>for\<close> loop of \<^verbatim>\<open>StitchFinalLogFile\<close> over the file numbers. The function resets
  \<^verbatim>\<open>current_event_file_\<close> first, which closes the stream of the last chunk, and assigns
  \<^verbatim>\<open>final_log_file_\<close> a new stream on the final file. The stream that this replaces has
  an empty buffer: in bounded mode the final file is written by
  \<^verbatim>\<open>CreateInprogressDirectory\<close> only, which flushes it.
\<close>

function stitch_loop :: "FileWriter \<Rightarrow> nat \<Rightarrow> size_t \<Rightarrow> size_t \<Rightarrow> disk \<Rightarrow> disk" where
  "stitch_loop fw kReadBufferSize filenumber end_filenumber d =
     (if filenumber < end_filenumber
      then stitch_loop fw kReadBufferSize (filenumber + 1) end_filenumber
             (AppendToFileThenDelete (GetEventFilePath fw (FileNumberToIndex fw filenumber))
                (final_log_file fw) kReadBufferSize d)
      else d)"
  by pat_completeness auto
termination
proof (relation "measure (\<lambda>(fw, k, filenumber, end_filenumber, d).
                             unat end_filenumber - unat filenumber)")
  show "wf (measure (\<lambda>(fw, k, filenumber, end_filenumber, d).
                       unat end_filenumber - unat filenumber))"
    by simp
next
  fix fw :: FileWriter and k :: nat and filenumber end_filenumber :: size_t and d :: disk
  assume less: "filenumber < end_filenumber"
  then have "unat filenumber < unat end_filenumber"
    by (simp add: word_less_nat_alt)
  moreover have "unat end_filenumber < 2 ^ LENGTH(64)"
    by (rule unsigned_less)
  ultimately have "unat filenumber + unat (1 :: size_t) < 2 ^ LENGTH(64)"
    by simp
  then have "unat (filenumber + 1) = unat filenumber + unat (1 :: size_t)"
    by (rule unat_add_lem [THEN iffD1])
  with \<open>unat filenumber < unat end_filenumber\<close> show "((fw, k, filenumber + 1, end_filenumber,
                     AppendToFileThenDelete
                       (GetEventFilePath fw (FileNumberToIndex fw filenumber))
                       (final_log_file fw) k d),
                    (fw, k, filenumber, end_filenumber, d))
                   \<in> measure (\<lambda>(fw, k, filenumber, end_filenumber, d).
                                unat end_filenumber - unat filenumber)"
    by simp
qed

declare stitch_loop.simps [simp del]

definition StitchFinalLogFile :: "FileWriter \<times> disk \<Rightarrow> FileWriter \<times> disk" where
  "StitchFinalLogFile s =
     (let (fw, d) = s;
          fw1 = fw\<lparr>current_event_file := None\<rparr>;
          kReadBufferSize = 2 ^ 16;
          (h, d1) = OpenFileForWrite (final_log_path fw1) d;
          fw2 = fw1\<lparr>final_log_file := h\<rparr>;
          d2 = AppendToFileThenDelete (GetConstantsFilePath fw2) (final_log_file fw2)
                 kReadBufferSize d1;
          end_filenumber = current_event_file_number fw2 + 1;
          begin_filenumber =
            (if current_event_file_number fw2 \<le> total_num_event_files fw2 then 1
             else end_filenumber - total_num_event_files fw2);
          d3 = stitch_loop fw2 kReadBufferSize begin_filenumber end_filenumber d2;
          d4 = RewindIfWroteEventBytes fw2 (final_log_file fw2) d3;
          d5 = AppendToFileThenDelete (GetClosingFilePath fw2) (final_log_file fw2)
                 kReadBufferSize d4
      in (fw2, DeleteFile (GetInprogressDirectory fw2) True d5))"

definition Stop :: "'v JSONWriter \<Rightarrow> 'v option \<Rightarrow> FileWriter \<times> disk \<Rightarrow> FileWriter \<times> disk" where
  "Stop jw polled_data s =
     (let (fw, d) = s;
          d1 = (if IsBounded fw
                then (let (closing_file, d0) = OpenFileForWrite (GetClosingFilePath fw) d
                      in WritePolledDataToFile jw polled_data closing_file d0)
                else WritePolledDataToFile jw polled_data (final_log_file fw)
                       (RewindIfWroteEventBytes fw (final_log_file fw) d));
          (fw2, d2) = (if IsBounded fw then StitchFinalLogFile (fw, d1) else (fw, d1))
      in (fw2\<lparr>final_log_file := None\<rparr>, d2))"



subsection \<open>FileNetLogObserver\<close>

text \<open>
  The file task runner is the list of the tasks posted to it, oldest first; it runs them
  one after the other. The write queue is shared by the observer and the tasks bound to
  it, so the observer's record holds the one copy.
\<close>

datatype 'v task =
    Task_Initialize 'v
  | Task_Flush
  | Task_FlushThenStop "'v option"
  | Task_DeleteAllFiles

record 'v FileNetLogObserver =
  file_task_runner :: "'v task list"
  write_queue :: WriteQueue
  file_writer :: FileWriter

text \<open>The constructor; \<open>net_constants\<close> is what the external \<^verbatim>\<open>GetNetConstants()\<close> returns.\<close>

definition FileNetLogObserver_new ::
  "'v \<Rightarrow> FileWriter \<Rightarrow> WriteQueue \<Rightarrow> 'v option \<Rightarrow> 'v FileNetLogObserver" where
  "FileNetLogObserver_new net_constants fw wq constants =
     (let constants1 = (case constants of None \<Rightarrow> net_constants | Some c \<Rightarrow> c)
      in \<lparr>file_task_runner = [Task_Initialize constants1],
          write_queue = wq,
          file_writer = fw\<rparr>)"

definition CreateBoundedInternal ::
  "'v \<Rightarrow> size_t \<Rightarrow> path \<Rightarrow> size_t \<Rightarrow> size_t \<Rightarrow> 'v option \<Rightarrow> 'v FileNetLogObserver" where
  "CreateBoundedInternal net_constants indeterminate log_path max_total_size
       num_event_files constants =
     (let max_event_file_size1 =
            (if max_total_size = kNoLimit then kNoLimit
             else max_total_size div num_event_files);
          fw = FileWriter_new log_path max_event_file_size1 num_event_files indeterminate;
          wq = WriteQueue_new (max_total_size * 2)
      in FileNetLogObserver_new net_constants fw wq constants)"

definition CreateBounded ::
  "'v \<Rightarrow> size_t \<Rightarrow> path \<Rightarrow> size_t \<Rightarrow> 'v option \<Rightarrow> 'v FileNetLogObserver" where
  "CreateBounded net_constants indeterminate log_path max_total_size constants =
     CreateBoundedInternal net_constants indeterminate log_path max_total_size 10 constants"

definition CreateUnbounded ::
  "'v \<Rightarrow> size_t \<Rightarrow> path \<Rightarrow> 'v option \<Rightarrow> 'v FileNetLogObserver" where
  "CreateUnbounded net_constants indeterminate log_path constants =
     CreateBounded net_constants indeterminate log_path kNoLimit constants"

definition CreateBoundedForTests ::
  "'v \<Rightarrow> size_t \<Rightarrow> path \<Rightarrow> size_t \<Rightarrow> size_t \<Rightarrow> 'v option \<Rightarrow> 'v FileNetLogObserver" where
  "CreateBoundedForTests net_constants indeterminate log_path max_total_size
       num_event_files constants =
     CreateBoundedInternal net_constants indeterminate log_path max_total_size
       num_event_files constants"

text \<open>\<open>entry\<close> is the value \<^verbatim>\<open>entry.ToValue()\<close> of the NetLog entry.\<close>

definition OnAddEntry ::
  "'v JSONWriter \<Rightarrow> 'v \<Rightarrow> 'v FileNetLogObserver \<Rightarrow> 'v FileNetLogObserver" where
  "OnAddEntry jw entry obs =
     (let (ok, json) = jw entry
      in if \<not> ok then obs
         else (let (wq, queue_size) = AddEntryToQueue (write_queue obs) json;
                   obs1 = obs\<lparr>write_queue := wq\<rparr>
               in if queue_size = of_int kNumWriteQueueEvents
                  then obs1\<lparr>file_task_runner := file_task_runner obs1 @ [Task_Flush]\<rparr>
                  else obs1))"





subsection \<open>Notions used in the statements\<close>

text \<open>
  The invariant of the write queue: the counter holds the bytes really queued. The sizes
  are those of strings that are in memory together, so their sum is below \<open>2\<^sup>6\<^sup>4\<close>; the
  statements below say so where they need it.
\<close>

definition wq_inv :: "WriteQueue \<Rightarrow> bool" where
  "wq_inv q = (unat (memory q) = queue_bytes (queue q))"

text \<open>A sequence of \<^verbatim>\<open>AddEntryToQueue\<close> calls, the returned lengths ignored.\<close>

fun push_all :: "WriteQueue \<Rightarrow> string list \<Rightarrow> WriteQueue" where
  "push_all q [] = q"
| "push_all q (event # events) = push_all (fst (AddEntryToQueue q event)) events"

text \<open>The text of a file after \<open>data\<close> was written over it at position \<open>p\<close>.\<close>

definition write_at :: "nat \<Rightarrow> string \<Rightarrow> string \<Rightarrow> string" where
  "write_at p old data = take p old @ data @ drop (p + length data) old"

text \<open>
  The disk after \<open>data\<close> was written in full through the stream \<open>f\<close>: the text goes over
  the file at the stream's position, which moves behind it.
\<close>

definition disk_write :: "FILE \<Rightarrow> string \<Rightarrow> disk \<Rightarrow> disk" where
  "disk_write f data d =
     d\<lparr>files := (files d)(f \<mapsto> write_at (pos d f) (contents d f) data),
       pos := (pos d)(f := pos d f + length data),
       room := room d - length data\<rparr>"

text \<open>The test of \<^verbatim>\<open>Flush\<close> that decides, in bounded mode, to rotate before a write.\<close>

definition rotates :: "FileWriter \<Rightarrow> bool" where
  "rotates fw = (current_event_file_number fw = 0
                 \<or> current_event_file_size fw \<ge> max_event_file_size fw)"

text \<open>
  The value of the local \<^verbatim>\<open>bytes_written\<close> in the loop body of \<^verbatim>\<open>Flush\<close> for the record
  \<open>event\<close>: what \<^verbatim>\<open>WriteToFile\<close> returns for the record and its separator.
\<close>

definition bytes_written :: "string \<Rightarrow> FileWriter \<times> disk \<Rightarrow> size_t" where
  \<open>bytes_written event s =
     (let (fw1, d1) =
            (if IsBounded (fst s)
             then (if current_event_file_number (fst s) = 0
                      \<or> current_event_file_size (fst s) \<ge> max_event_file_size (fst s)
                   then IncrementCurrentEventFile s else s)
             else s);
          output_file = (if IsBounded fw1 then current_event_file fw1 else final_log_file fw1)
      in fst (WriteToFile output_file event '',\<newline>'' [] d1))\<close>


definition closing_text :: "'v JSONWriter \<Rightarrow> 'v option \<Rightarrow> string" where
  \<open>closing_text jw polled_data =
     '']''
     @ (case polled_data of
          None \<Rightarrow> []
        | Some v \<Rightarrow>
            if snd (jw v) \<noteq> [] then '',\<newline>"polledData": '' @ snd (jw v) @ ''\<newline>'' else [])
     @ ''}\<newline>''\<close>







subsection \<open>The epilogue, as the specification words it\<close>

text \<open>
  The epilogue is the byte \<^verbatim>\<open>]\<close>; then, if and only if polled data is present and
  encodes to a JSON string that is not empty, the \<^verbatim>\<open>polledData\<close> clause; then the
  closing brace and a newline. Polled data encodes when \<^verbatim>\<open>JSONWriter::Write\<close> returns
  true.
\<close>

definition epilogue :: "'v JSONWriter \<Rightarrow> 'v option \<Rightarrow> string" where
  \<open>epilogue jw polled_data =
     '']''
     @ (case polled_data of
          None \<Rightarrow> []
        | Some v \<Rightarrow>
            if fst (jw v) \<and> snd (jw v) \<noteq> []
            then '',\<newline>"polledData": '' @ snd (jw v) @ ''\<newline>'' else [])
     @ ''}\<newline>''\<close>

subsection \<open>States used as examples\<close>

text \<open>
  An empty disk where every path opens and 1000 bytes can be written, and the same disk
  where no path opens. The encoder of the examples takes a text for its own JSON.
\<close>

definition example_disk :: disk where
  "example_disk = \<lparr>files = (\<lambda>p. None), pos = (\<lambda>p. 0), room = 1000, openable = (\<lambda>p. True)\<rparr>"

definition example_closed_disk :: disk where
  "example_closed_disk = example_disk\<lparr>openable := (\<lambda>p. False)\<rparr>"

definition example_encoder :: "string JSONWriter" where
  "example_encoder v = (True, v)"

text \<open>
  An encoder that fails on every value and leaves the text it had produced by then, as
  \<^verbatim>\<open>JSONWriter::Write\<close> does on a dictionary that holds a value it cannot encode.
\<close>

definition example_failing_encoder :: "string JSONWriter" where
  "example_failing_encoder v = (False, v)"

text \<open>A write queue holding two events.\<close>

definition example_queue :: WriteQueue where
  "example_queue = \<lparr>queue = [''{}'', ''[]''], memory = 4, memory_max = 100\<rparr>"

text \<open>A new bounded writer with 3 chunks of 10 bytes.\<close>

definition example_bounded_writer :: FileWriter where
  "example_bounded_writer = FileWriter_new ''netlog.json'' 10 3 0"

text \<open>
  The same writer at file number 7, and a disk holding its ring: the chunks of the file
  numbers 7, 5 and 6 at the indices 0, 1 and 2.
\<close>

definition example_wrapped_writer :: FileWriter where
  "example_wrapped_writer =
     (FileWriter_new ''netlog.json'' 10 3 0)\<lparr>current_event_file_number := 7\<rparr>"

definition example_wrapped_disk :: disk where
  "example_wrapped_disk =
     example_disk\<lparr>files := [''netlog.json.inprogress/event_file_0.json'' \<mapsto> ''seven'',
                             ''netlog.json.inprogress/event_file_1.json'' \<mapsto> ''five'',
                             ''netlog.json.inprogress/event_file_2.json'' \<mapsto> ''six'']\<rparr>"

text \<open>
  An unbounded writer that has written one event line through the final file, and the
  disk with that file: the open events array and the line \<^verbatim>\<open>E\<close> with its separator.
\<close>

definition example_unbounded_writer :: FileWriter where
  "example_unbounded_writer =
     (FileWriter_new ''netlog.json'' kNoLimit 10 0)
       \<lparr>final_log_file := Some ''netlog.json'', wrote_event_bytes := True\<rparr>"

definition example_unbounded_disk :: disk where
  "example_unbounded_disk =
     example_disk\<lparr>files := [''netlog.json'' \<mapsto> ''[\<newline>E,\<newline>''],
                    pos := (\<lambda>p. 5)\<rparr>"

text \<open>
  The bounded writer after it wrote the event \<^verbatim>\<open>{}\<close> to its first chunk, and the disk
  with that chunk.
\<close>

definition example_open_writer :: FileWriter where
  "example_open_writer =
     example_bounded_writer
       \<lparr>current_event_file := Some ''netlog.json.inprogress/event_file_0.json'',
        current_event_file_size := 4,
        current_event_file_number := 1,
        wrote_event_bytes := True\<rparr>"

definition example_open_disk :: disk where
  "example_open_disk =
     example_disk\<lparr>files := [''netlog.json.inprogress/event_file_0.json'' \<mapsto> ''{},\<newline>''],
                    pos := (\<lambda>p. 4)\<rparr>"

text \<open>A new bounded writer with a ring of one chunk of 10 bytes.\<close>

definition example_single_writer :: FileWriter where
  "example_single_writer = FileWriter_new ''netlog.json'' 10 1 0"

text \<open>
  That writer after it wrote the event \<^verbatim>\<open>0123456789\<close> to its chunk, which has reached
  the limit, and the disk with the chunk; the twelve bytes are in the buffer of the
  stream.
\<close>

definition example_single_open_writer :: FileWriter where
  "example_single_open_writer =
     example_single_writer
       \<lparr>current_event_file := Some ''netlog.json.inprogress/event_file_0.json'',
        current_event_file_size := 12,
        current_event_file_number := 1,
        wrote_event_bytes := True\<rparr>"

definition example_single_open_disk :: disk where
  "example_single_open_disk =
     example_disk\<lparr>files := [''netlog.json.inprogress/event_file_0.json'' \<mapsto> ''0123456789,\<newline>''],
                    pos := (\<lambda>p. 12),
                    room := 988\<rparr>"


section \<open>Lemmas on the write queue\<close>

lemma queue_bytes_simps [simp]:
  "queue_bytes [] = 0"
  "queue_bytes (e # es) = length e + queue_bytes es"
  "queue_bytes (es @ fs) = queue_bytes es + queue_bytes fs"
  by (simp_all add: queue_bytes_def)

lemma drop_oldest_done:
  "\<not> (memory q > memory_max q \<and> queue q \<noteq> []) \<Longrightarrow> drop_oldest q = q"
  by (subst drop_oldest.simps) auto

lemma drop_oldest_step:
  "memory q > memory_max q \<Longrightarrow> queue q \<noteq> [] \<Longrightarrow>
   drop_oldest q =
     drop_oldest (q\<lparr>memory := memory q - string_size (hd (queue q)), queue := tl (queue q)\<rparr>)"
  by (subst drop_oldest.simps) auto

lemma drop_oldest_memory_max [simp]: "memory_max (drop_oldest q) = memory_max q"
  by (induction q rule: drop_oldest.induct) (subst drop_oldest.simps, simp)

lemma drop_oldest_stops:
  "memory (drop_oldest q) \<le> memory_max q \<or> queue (drop_oldest q) = []"
  by (induction q rule: drop_oldest.induct) (subst (1 2) drop_oldest.simps, auto)

lemma drop_oldest_word_inv:
  "memory q = of_nat (queue_bytes (queue q))
   \<Longrightarrow> memory (drop_oldest q) = of_nat (queue_bytes (queue (drop_oldest q)))"
proof (induction q rule: drop_oldest.induct)
  case (1 q)
  show ?case
  proof (cases "memory q > memory_max q \<and> queue q \<noteq> []")
    case True
    then obtain e es where q: "queue q = e # es" by (cases "queue q") auto
    let ?q' = "q\<lparr>memory := memory q - string_size (hd (queue q)), queue := tl (queue q)\<rparr>"
    have "memory ?q' = of_nat (queue_bytes (queue ?q'))"
      using "1.prems" q by (simp add: string_size_def)
    with "1.IH" True have "memory (drop_oldest ?q') = of_nat (queue_bytes (queue (drop_oldest ?q')))"
      by blast
    with True show ?thesis by (simp add: drop_oldest_step)
  next
    case False
    with "1.prems" show ?thesis by (simp add: drop_oldest_done)
  qed
qed

lemma drop_oldest_within_cap:
  assumes "memory q = of_nat (queue_bytes (queue q))"
  shows "memory (drop_oldest q) \<le> memory_max q"
  using drop_oldest_stops [of q] drop_oldest_word_inv [OF assms] by auto

lemma wq_inv_word: "wq_inv q \<Longrightarrow> memory q = of_nat (queue_bytes (queue q))"
  unfolding wq_inv_def by (metis of_nat_unat ucast_id)

lemma drop_oldest_spec:
  assumes "wq_inv q"
  shows "\<exists>k\<le>length (queue q).
           drop_oldest q = q\<lparr>memory := of_nat (queue_bytes (drop k (queue q))),
                              queue := drop k (queue q)\<rparr>
         \<and> (\<forall>j<k. unat (memory_max q) < queue_bytes (drop j (queue q)))
         \<and> queue_bytes (drop k (queue q)) \<le> unat (memory_max q)
         \<and> wq_inv (drop_oldest q)"
  using assms
proof (induction q rule: drop_oldest.induct)
  case (1 q)
  show ?case
  proof (cases "memory q > memory_max q \<and> queue q \<noteq> []")
    case True
    then obtain e es where q: "queue q = e # es" by (cases "queue q") auto
    let ?q' = "q\<lparr>memory := memory q - string_size (hd (queue q)), queue := tl (queue q)\<rparr>"
    have mem: "unat (memory q) = length e + queue_bytes es"
      using "1.prems" q by (simp add: wq_inv_def)
    have "length e \<le> unat (memory q)" using mem by simp
    then have le: "unat (string_size e) = length e"
      by (simp add: string_size_def le_unat_uoi)
    then have "string_size e \<le> memory q"
      using mem by (simp add: word_le_nat_alt)
    then have "unat (memory q - string_size e) = unat (memory q) - unat (string_size e)"
      by (rule unat_sub)
    with mem le have inv': "wq_inv ?q'"
      using q by (simp add: wq_inv_def)
    from "1.IH" [OF True inv'] obtain k where
      k: "k \<le> length es"
      and eq: "drop_oldest ?q' = ?q'\<lparr>memory := of_nat (queue_bytes (drop k es)),
                              queue := drop k es\<rparr>"
      and over: "\<forall>j<k. unat (memory_max q) < queue_bytes (drop j es)"
      and under: "queue_bytes (drop k es) \<le> unat (memory_max q)"
      and inv'': "wq_inv (drop_oldest ?q')"
      using q by auto
    have step: "drop_oldest q = drop_oldest ?q'"
      using True by (simp add: drop_oldest_step)
    have first: "unat (memory_max q) < queue_bytes (e # es)"
      using True mem by (simp add: word_less_nat_alt)
    have "\<forall>j<Suc k. unat (memory_max q) < queue_bytes (drop j (e # es))"
    proof (intro allI impI)
      fix j assume "j < Suc k"
      then show "unat (memory_max q) < queue_bytes (drop j (e # es))"
        using first over by (cases j) auto
    qed
    then show ?thesis
      using k eq under inv'' step q
      by (intro exI [of _ "Suc k"]) simp
  next
    case False
    then have same: "drop_oldest q = q" by (rule drop_oldest_done)
    have "queue_bytes (queue q) \<le> unat (memory_max q)"
    proof (cases "queue q = []")
      case True then show ?thesis by simp
    next
      case False
      with \<open>\<not> (memory q > memory_max q \<and> queue q \<noteq> [])\<close>
      have "memory q \<le> memory_max q" by simp
      then show ?thesis using "1.prems" by (simp add: wq_inv_def word_le_nat_alt)
    qed
    then show ?thesis
      using same "1.prems" wq_inv_word [OF "1.prems"]
      by (intro exI [of _ 0]) simp
  qed
qed

lemma AddEntryToQueue_memory_max [simp]:
  "memory_max (fst (AddEntryToQueue q event)) = memory_max q"
  by (simp add: AddEntryToQueue_def Let_def)

lemma AddEntryToQueue_word_inv:
  assumes "memory q = of_nat (queue_bytes (queue q))"
  shows "memory (fst (AddEntryToQueue q event))
           = of_nat (queue_bytes (queue (fst (AddEntryToQueue q event))))"
    and "memory (fst (AddEntryToQueue q event)) \<le> memory_max q"
proof -
  let ?q2 = "q\<lparr>memory := memory q + string_size event, queue := queue q @ [event]\<rparr>"
  have pushed: "memory ?q2 = of_nat (queue_bytes (queue ?q2))"
    using assms by (simp add: string_size_def)
  have unfold: "fst (AddEntryToQueue q event) = drop_oldest ?q2"
    by (simp add: AddEntryToQueue_def Let_def)
  show "memory (fst (AddEntryToQueue q event))
           = of_nat (queue_bytes (queue (fst (AddEntryToQueue q event))))"
    unfolding unfold by (rule drop_oldest_word_inv [OF pushed])
  show "memory (fst (AddEntryToQueue q event)) \<le> memory_max q"
    unfolding unfold using drop_oldest_within_cap [OF pushed] by simp
qed

lemma push_all_within_cap:
  assumes "memory q = of_nat (queue_bytes (queue q))" and "memory q \<le> memory_max q"
  shows "memory (push_all q events) \<le> memory_max q
       \<and> memory_max (push_all q events) = memory_max q"
  using assms
proof (induction events arbitrary: q)
  case Nil
  then show ?case by simp
next
  case (Cons event events)
  from Cons.IH [of "fst (AddEntryToQueue q event)"]
    AddEntryToQueue_word_inv [OF Cons.prems(1), of event]
  show ?case by simp
qed

lemma AddEntryToQueue_spec:
  assumes inv: "wq_inv q" and fit: "queue_bytes (queue q) + length event < 2 ^ 64"
  shows "\<exists>k\<le>length (queue q) + 1.
           AddEntryToQueue q event
             = (q\<lparr>memory := of_nat (queue_bytes (drop k (queue q @ [event]))),
                   queue := drop k (queue q @ [event])\<rparr>,
                of_nat (length (drop k (queue q @ [event]))))
         \<and> (\<forall>j<k. unat (memory_max q) < queue_bytes (drop j (queue q @ [event])))
         \<and> queue_bytes (drop k (queue q @ [event])) \<le> unat (memory_max q)
         \<and> wq_inv (fst (AddEntryToQueue q event))"
proof -
  let ?q2 = "q\<lparr>memory := memory q + string_size event, queue := queue q @ [event]\<rparr>"
  have size: "unat (string_size event) = length event"
    using fit by (simp add: string_size_def unat_of_nat)
  have "unat (memory q) + unat (string_size event) < 2 ^ LENGTH(64)"
    using inv fit size by (simp add: wq_inv_def)
  then have "unat (memory q + string_size event) = unat (memory q) + unat (string_size event)"
    by (rule unat_add_lem [THEN iffD1])
  then have inv2: "wq_inv ?q2"
    using inv size by (simp add: wq_inv_def)
  have unfold: "AddEntryToQueue q event
                  = (drop_oldest ?q2, of_nat (length (queue (drop_oldest ?q2))))"
    by (simp add: AddEntryToQueue_def Let_def)
  from drop_oldest_spec [OF inv2] obtain k where
    "k \<le> length (queue q) + 1"
    "drop_oldest ?q2 = ?q2\<lparr>memory := of_nat (queue_bytes (drop k (queue q @ [event]))),
                              queue := drop k (queue q @ [event])\<rparr>"
    "\<forall>j<k. unat (memory_max q) < queue_bytes (drop j (queue q @ [event]))"
    "queue_bytes (drop k (queue q @ [event])) \<le> unat (memory_max q)"
    "wq_inv (drop_oldest ?q2)"
    by auto
  then show ?thesis
    unfolding unfold by (intro exI [of _ k]) simp
qed

section \<open>Lemmas on the disk\<close>

lemma write_at_Nil [simp]: "write_at p old [] = old"
  by (simp add: write_at_def)

lemma write_at_end [simp]: "write_at (length old) old data = old @ data"
  by (simp add: write_at_def)

lemma write_at_write_at:
  "write_at (p + length a) (write_at p old a) b = write_at p old (a @ b)"
proof (cases "p \<le> length old")
  case True
  then show ?thesis
    by (simp add: write_at_def min_absorb2 ac_simps)
next
  case False
  then show ?thesis
    by (simp add: write_at_def)
qed

lemma disk_write_fields [simp]:
  "room (disk_write f data d) = room d - length data"
  "openable (disk_write f data d) = openable d"
  "pos (disk_write f data d) f = pos d f + length data"
  "g \<noteq> f \<Longrightarrow> pos (disk_write f data d) g = pos d g"
  "files (disk_write f data d) f = Some (write_at (pos d f) (contents d f) data)"
  "g \<noteq> f \<Longrightarrow> files (disk_write f data d) g = files d g"
  "contents (disk_write f data d) f = write_at (pos d f) (contents d f) data"
  "g \<noteq> f \<Longrightarrow> contents (disk_write f data d) g = contents d g"
  by (simp_all add: disk_write_def contents_def)

lemma disk_write_Nil [simp]: "files d f \<noteq> None \<Longrightarrow> disk_write f [] d = d"
  by (auto simp add: disk_write_def contents_def map_upd_triv)

lemma disk_write_disk_write [simp]:
  "disk_write f b (disk_write f a d) = disk_write f (a @ b) d"
  by (simp add: disk_write_def contents_def write_at_write_at add.assoc)

lemma fwrite_fits:
  "length data \<le> room d \<Longrightarrow> fwrite data f d = (length data, disk_write f data d)"
  by (simp add: fwrite_def Let_def disk_write_def write_at_def min_absorb1)

lemma fwrite_count:
  "fst (fwrite data f d) \<le> length data"
  "0 < room d \<Longrightarrow> data \<noteq> [] \<Longrightarrow> 0 < fst (fwrite data f d)"
  "room (snd (fwrite data f d)) \<le> room d"
  "0 < room d \<Longrightarrow> data \<noteq> [] \<Longrightarrow> room (snd (fwrite data f d)) < room d"
  "openable (snd (fwrite data f d)) = openable d"
  by (auto simp add: fwrite_def Let_def min_def)

lemma fclose_replaced_other [simp]:
  "new_file \<noteq> Some f \<Longrightarrow> fclose_replaced f new_file d_old d = d"
  by (simp add: fclose_replaced_def)

lemma fclose_replaced_fields [simp]:
  "pos (fclose_replaced f new_file d_old d) = pos d"
  "room (fclose_replaced f new_file d_old d) = room d"
  "openable (fclose_replaced f new_file d_old d) = openable d"
  "g \<noteq> f \<Longrightarrow> files (fclose_replaced f new_file d_old d) g = files d g"
  "files d f \<noteq> None \<Longrightarrow> files (fclose_replaced f new_file d_old d) f \<noteq> None"
  by (simp_all add: fclose_replaced_def)

lemma WriteToFile_None [simp]: "WriteToFile None data1 data2 data3 d = (0, d)"
  by (simp add: WriteToFile_def)

lemma WriteToFile_fits:
  assumes "length data1 + length data2 + length data3 \<le> room d" and "files d f \<noteq> None"
  shows "WriteToFile (Some f) data1 data2 data3 d
           = (of_nat (length data1 + length data2 + length data3),
              disk_write f (data1 @ data2 @ data3) d)"
proof -
  have r1: "length data1 \<le> room d" using assms(1) by simp
  have r2: "length data2 \<le> room (disk_write f data1 d)" using assms(1) by simp
  have r2': "length data2 \<le> room d" using assms(1) by simp
  have r3: "length data3 \<le> room (disk_write f (data1 @ data2) d)" using assms(1) by simp
  have r3': "length data3 \<le> room (disk_write f data1 d)" using assms(1) by simp
  have r3'': "length data3 \<le> room (disk_write f data2 d)" using assms(1) by simp
  have r3''': "length data3 \<le> room d" using assms(1) by simp
  show ?thesis
    using assms(2)
    by (simp add: WriteToFile_def fwrite_fits r1 r2 r2' r3 r3' r3'' r3'''
        fwrite_fits [OF r2] fwrite_fits [OF r3] fwrite_fits [OF r3'] fwrite_fits [OF r3''])
qed

lemma copy_chunks_fits:
  "0 < n \<Longrightarrow> files d f \<noteq> None \<Longrightarrow> length source \<le> room d \<Longrightarrow>
   copy_chunks n (Some f) source d = disk_write f source d"
proof (induction n "Some f" source d rule: copy_chunks.induct)
  case (1 n rest d)
  show ?case
  proof (cases "rest = []")
    case True
    then show ?thesis
      using "1.prems" by (subst copy_chunks.simps) simp
  next
    case False
    with "1.prems"(1) have chunk: "0 < length (take n rest)" by simp
    have fits: "length (take n rest) + length ([] :: string) + length ([] :: string) \<le> room d"
      using "1.prems"(3) by simp
    have w: "WriteToFile (Some f) (take n rest) [] [] d
               = (of_nat (length (take n rest)), disk_write f (take n rest) d)"
      using WriteToFile_fits [OF fits "1.prems"(2)] by simp
    have "copy_chunks n (Some f) (drop n rest) (disk_write f (take n rest) d)
            = disk_write f (drop n rest) (disk_write f (take n rest) d)"
      using "1.hyps" [OF refl chunk] "1.prems" w by simp
    then show ?thesis
      using chunk w by (subst copy_chunks.simps) (simp add: Let_def)
  qed
qed

lemma copy_chunks_None [simp]: "copy_chunks n None source d = d"
  by (induction n "None :: FILE option" source d rule: copy_chunks.induct)
    (subst copy_chunks.simps, simp add: Let_def)

lemma OpenFileForWrite_openable:
  "openable d p \<Longrightarrow>
   OpenFileForWrite p d = (Some p, d\<lparr>files := (files d)(p \<mapsto> []), pos := (pos d)(p := 0)\<rparr>)"
  by (simp add: OpenFileForWrite_def fopen_wb_def)

lemma OpenFileForWrite_fails [simp]:
  "\<not> openable d p \<Longrightarrow> OpenFileForWrite p d = (None, d)"
  by (simp add: OpenFileForWrite_def fopen_wb_def)

lemma AppendToFileThenDelete_fits:
  assumes "openable d source_path" and "files d source_path = Some source"
    and "files d f \<noteq> None" and "length source \<le> room d" and "0 < n"
  shows "AppendToFileThenDelete source_path (Some f) n d
           = DeleteFile source_path False (disk_write f source d)"
  using assms by (simp add: AppendToFileThenDelete_def fopen_rb_def copy_chunks_fits)

lemma AppendToFileThenDelete_missing [simp]:
  "files d source_path = None \<Longrightarrow> AppendToFileThenDelete source_path file n d = d"
  by (simp add: AppendToFileThenDelete_def fopen_rb_def)

lemma AppendToFileThenDelete_unopenable [simp]:
  "\<not> openable d source_path \<Longrightarrow> AppendToFileThenDelete source_path file n d = d"
  by (simp add: AppendToFileThenDelete_def fopen_rb_def)

lemma DeleteFile_fields [simp]:
  "files (DeleteFile p recursive d) q
     = (if q = p \<or> (recursive \<and> is_under p q) then None else files d q)"
  "pos (DeleteFile p recursive d) = pos d"
  "room (DeleteFile p recursive d) = room d"
  "openable (DeleteFile p recursive d) = openable d"
  by (simp_all add: DeleteFile_def)

lemma contents_DeleteFile [simp]:
  "contents (DeleteFile p recursive d) q
     = (if q = p \<or> (recursive \<and> is_under p q) then [] else contents d q)"
  by (simp add: contents_def)

section \<open>Lemmas on the file writer\<close>

lemma unat_max_size_t: "unat (- 1 :: size_t) = 2 ^ 64 - 1"
  by (simp add: unsigned_minus_1_eq_mask mask_eq_exp_minus_1)

lemma unat_plus_one: "(x :: size_t) \<noteq> - 1 \<Longrightarrow> unat (x + 1) = unat x + 1"
proof -
  assume "x \<noteq> - 1"
  then have "x < - 1" by (simp add: word_order.not_eq_extremum)
  then have "unat x < unat (- 1 :: size_t)" by (simp only: word_less_nat_alt)
  then have "unat x + unat (1 :: size_t) < 2 ^ LENGTH(64)" by (simp add: unat_max_size_t)
  then have "unat (x + 1) = unat x + unat (1 :: size_t)"
    by (rule unat_add_lem [THEN iffD1])
  then show ?thesis by simp
qed

lemma IncrementCurrentEventFile_fields [simp]:
  "current_event_file_number (fst (IncrementCurrentEventFile (fw, d)))
     = current_event_file_number fw + 1"
  "current_event_file_size (fst (IncrementCurrentEventFile (fw, d))) = 0"
  "total_num_event_files (fst (IncrementCurrentEventFile (fw, d))) = total_num_event_files fw"
  "max_event_file_size (fst (IncrementCurrentEventFile (fw, d))) = max_event_file_size fw"
  "wrote_event_bytes (fst (IncrementCurrentEventFile (fw, d))) = wrote_event_bytes fw"
  "final_log_file (fst (IncrementCurrentEventFile (fw, d))) = final_log_file fw"
  "final_log_path (fst (IncrementCurrentEventFile (fw, d))) = final_log_path fw"
  by (simp_all add: IncrementCurrentEventFile_def Let_def split_def)

lemma IsBounded_Increment [simp]:
  "IsBounded (fst (IncrementCurrentEventFile (fw, d))) = IsBounded fw"
  by (simp add: IsBounded_def IsUnbounded_def)

lemma Flush_event_fields [simp]:
  "current_event_file_number (fst (Flush_event event (fw, d)))
     = (if IsBounded fw \<and> rotates fw then current_event_file_number fw + 1
        else current_event_file_number fw)"
  "total_num_event_files (fst (Flush_event event (fw, d))) = total_num_event_files fw"
  "max_event_file_size (fst (Flush_event event (fw, d))) = max_event_file_size fw"
  "final_log_path (fst (Flush_event event (fw, d))) = final_log_path fw"
  "final_log_file (fst (Flush_event event (fw, d))) = final_log_file fw"
  by (simp_all add: Flush_event_def Let_def split_def rotates_def)

lemma IsBounded_Flush_event [simp]:
  "IsBounded (fst (Flush_event event (fw, d))) = IsBounded fw"
  by (simp add: IsBounded_def IsUnbounded_def)

lemma Flush_loop_number:
  "unat (current_event_file_number fw) + length events < 2 ^ 64 \<Longrightarrow>
   unat (current_event_file_number fw)
     \<le> unat (current_event_file_number (fst (Flush_loop events (fw, d))))
   \<and> unat (current_event_file_number (fst (Flush_loop events (fw, d))))
     \<le> unat (current_event_file_number fw) + length events"
proof (induction events arbitrary: fw d)
  case Nil
  then show ?case by simp
next
  case (Cons event events)
  obtain fw1 d1 where step: "Flush_event event (fw, d) = (fw1, d1)"
    by (cases "Flush_event event (fw, d)")
  have "current_event_file_number fw \<noteq> - 1"
  proof
    assume "current_event_file_number fw = - 1"
    then have "unat (current_event_file_number fw) = 2 ^ 64 - 1" by (simp add: unat_max_size_t)
    with Cons.prems show False by simp
  qed
  then have up: "unat (current_event_file_number fw + 1) = unat (current_event_file_number fw) + 1"
    by (rule unat_plus_one)
  have one: "unat (current_event_file_number fw) \<le> unat (current_event_file_number fw1)
           \<and> unat (current_event_file_number fw1) \<le> unat (current_event_file_number fw) + 1"
    using Flush_event_fields(1) [of event fw d] up by (simp add: step)
  with Cons.prems have "unat (current_event_file_number fw1) + length events < 2 ^ 64"
    by simp
  from Cons.IH [OF this, of d1] one show ?case by (simp add: step)
qed

lemma FileNumberToIndex_unat:
  assumes "total_num_event_files fw \<noteq> 0" and "fn \<noteq> 0"
  shows "unat (FileNumberToIndex fw fn) = (unat fn - 1) mod unat (total_num_event_files fw)"
proof -
  have "unat (fn - 1) = unat fn - 1"
    using assms(2) by (simp add: unat_minus_one)
  then show ?thesis by (simp add: FileNumberToIndex_def unat_mod)
qed


lemma stitch_loop_done:
  "\<not> filenumber < end_filenumber \<Longrightarrow> stitch_loop fw k filenumber end_filenumber d = d"
  by (subst stitch_loop.simps) simp

lemma stitch_loop_step:
  "filenumber < end_filenumber \<Longrightarrow>
   stitch_loop fw k filenumber end_filenumber d =
     stitch_loop fw k (filenumber + 1) end_filenumber
       (AppendToFileThenDelete (GetEventFilePath fw (FileNumberToIndex fw filenumber))
          (final_log_file fw) k d)"
  by (subst stitch_loop.simps) simp

lemma stitch_loop_fold:
  assumes "e < 2 ^ 64" and "b \<le> e"
  shows "stitch_loop fw k (of_nat b) (of_nat e) d =
           fold (\<lambda>n. AppendToFileThenDelete
                        (GetEventFilePath fw (FileNumberToIndex fw (of_nat n)))
                        (final_log_file fw) k)
             [b..<e] d"
  using assms(2)
proof (induction "e - b" arbitrary: b d)
  case 0
  then have "b = e" by simp
  then show ?case by (simp add: stitch_loop_done)
next
  case (Suc m)
  then have lt: "b < e" by simp
  have ub: "unat (of_nat b :: size_t) = b" "unat (of_nat e :: size_t) = e"
    using lt assms(1) by (simp_all add: unat_of_nat)
  have less: "(of_nat b :: size_t) < of_nat e"
    using lt ub by (simp add: word_less_nat_alt)
  have next_b: "(of_nat b :: size_t) + 1 = of_nat (Suc b)" by simp
  have "m = e - Suc b" using Suc.hyps(2) by simp
  from Suc.hyps(1) [OF this] lt
  have ih: "stitch_loop fw k (of_nat (Suc b)) (of_nat e) d' =
           fold (\<lambda>n. AppendToFileThenDelete
                        (GetEventFilePath fw (FileNumberToIndex fw (of_nat n)))
                        (final_log_file fw) k)
             [Suc b..<e] d'" for d'
    by simp
  show ?case
    using lt by (simp add: stitch_loop_step [OF less] next_b ih upt_conv_Cons del: of_nat_Suc)
qed

lemma FileNumberToIndex_of_nat:
  assumes "total_num_event_files fw \<noteq> 0" and "0 < n" and "n < 2 ^ 64"
  shows "FileNumberToIndex fw (of_nat n) = of_nat ((n - 1) mod unat (total_num_event_files fw))"
proof -
  have n: "unat (of_nat n :: size_t) = n"
    using assms(3) by (simp add: unat_of_nat)
  then have nz: "(of_nat n :: size_t) \<noteq> 0"
    using assms(2) by (metis less_numeral_extra(3) unat_0)
  have "unat (FileNumberToIndex fw (of_nat n))
          = (n - 1) mod unat (total_num_event_files fw)"
    using FileNumberToIndex_unat [OF assms(1) nz] n by simp
  then show ?thesis by (metis of_nat_unat ucast_id)
qed

lemma SizeTToString_of_nat: "m < 2 ^ 64 \<Longrightarrow> SizeTToString (of_nat m) = decimal m"
  by (simp add: SizeTToString_def unat_of_nat)

lemma path_fields [simp]:
  "GetInprogressDirectory (fw\<lparr>current_event_file := x\<rparr>) = GetInprogressDirectory fw"
  "GetInprogressDirectory (fw\<lparr>final_log_file := y\<rparr>) = GetInprogressDirectory fw"
  "GetEventFilePath (fw\<lparr>current_event_file := x\<rparr>) i = GetEventFilePath fw i"
  "GetEventFilePath (fw\<lparr>final_log_file := y\<rparr>) i = GetEventFilePath fw i"
  "GetConstantsFilePath (fw\<lparr>current_event_file := x\<rparr>) = GetConstantsFilePath fw"
  "GetConstantsFilePath (fw\<lparr>final_log_file := y\<rparr>) = GetConstantsFilePath fw"
  "GetClosingFilePath (fw\<lparr>current_event_file := x\<rparr>) = GetClosingFilePath fw"
  "GetClosingFilePath (fw\<lparr>final_log_file := y\<rparr>) = GetClosingFilePath fw"
  "FileNumberToIndex (fw\<lparr>current_event_file := x\<rparr>) n = FileNumberToIndex fw n"
  "FileNumberToIndex (fw\<lparr>final_log_file := y\<rparr>) n = FileNumberToIndex fw n"
  "RewindIfWroteEventBytes (fw\<lparr>current_event_file := x\<rparr>) f d = RewindIfWroteEventBytes fw f d"
  "RewindIfWroteEventBytes (fw\<lparr>final_log_file := y\<rparr>) f d = RewindIfWroteEventBytes fw f d"
  by (simp_all add: GetInprogressDirectory_def GetEventFilePath_def GetConstantsFilePath_def
      GetClosingFilePath_def FileNumberToIndex_def RewindIfWroteEventBytes_def
      split: option.split)

lemma event_file_path:
  assumes "total_num_event_files fw \<noteq> 0" and "0 < n" and "n < 2 ^ 64"
  shows "GetEventFilePath fw (FileNumberToIndex fw (of_nat n))
           = final_log_path fw @ ''.inprogress/event_file_''
               @ decimal ((n - 1) mod unat (total_num_event_files fw)) @ ''.json''"
proof -
  have "(n - 1) mod unat (total_num_event_files fw) < unat (total_num_event_files fw)"
    using assms(1) by (simp add: unat_gt_0)
  moreover have "unat (total_num_event_files fw) < 2 ^ LENGTH(64)"
    by (rule unsigned_less)
  ultimately have "(n - 1) mod unat (total_num_event_files fw) < 2 ^ 64"
    by simp
  then show ?thesis
    by (simp add: FileNumberToIndex_of_nat [OF assms] SizeTToString_of_nat
        GetEventFilePath_def GetInprogressDirectory_def)
qed

lemma stitch_window_words:
  fixes fnw Nw :: size_t
  assumes "fnw \<noteq> - 1"
  shows "fnw + 1 = of_nat (unat fnw + 1)"
    and "(if fnw \<le> Nw then 1 else fnw + 1 - Nw)
           = of_nat (if unat fnw \<le> unat Nw then 1 else unat fnw + 1 - unat Nw)"
proof -
  show "fnw + 1 = of_nat (unat fnw + 1)" by simp
  have "fnw + 1 - Nw = of_nat (unat fnw + 1 - unat Nw)" if "\<not> fnw \<le> Nw"
  proof -
    from that have "unat Nw \<le> unat fnw + 1" by (simp add: word_le_nat_alt)
    then have "of_nat (unat fnw + 1 - unat Nw) = (of_nat (unat fnw + 1) - of_nat (unat Nw) :: size_t)"
      by (rule of_nat_diff)
    then show ?thesis by simp
  qed
  then show "(if fnw \<le> Nw then 1 else fnw + 1 - Nw)
           = of_nat (if unat fnw \<le> unat Nw then 1 else unat fnw + 1 - unat Nw)"
    by (simp add: word_le_nat_alt)
qed

lemma StitchFinalLogFile_unfold:
  "StitchFinalLogFile (fw, d) =
     (fw\<lparr>current_event_file := None,
         final_log_file := fst (OpenFileForWrite (final_log_path fw) d)\<rparr>,
      DeleteFile (GetInprogressDirectory fw) True
        (AppendToFileThenDelete (GetClosingFilePath fw)
           (fst (OpenFileForWrite (final_log_path fw) d)) (2 ^ 16)
           (RewindIfWroteEventBytes fw (fst (OpenFileForWrite (final_log_path fw) d))
              (stitch_loop
                 (fw\<lparr>current_event_file := None,
                     final_log_file := fst (OpenFileForWrite (final_log_path fw) d)\<rparr>)
                 (2 ^ 16)
                 (if current_event_file_number fw \<le> total_num_event_files fw then 1
                  else current_event_file_number fw + 1 - total_num_event_files fw)
                 (current_event_file_number fw + 1)
                 (AppendToFileThenDelete (GetConstantsFilePath fw)
                    (fst (OpenFileForWrite (final_log_path fw) d)) (2 ^ 16)
                    (snd (OpenFileForWrite (final_log_path fw) d)))))))"
  by (simp add: StitchFinalLogFile_def Let_def split_def)


lemma WritePolledDataToFile_None [simp]: "WritePolledDataToFile jw polled_data None d = d"
  by (simp add: WritePolledDataToFile_def Let_def split: option.split)

lemma WritePolledDataToFile_fits:
  fixes jw :: "'v JSONWriter"
  assumes stream: "files d f \<noteq> None"
    and fits0: "length (closing_text jw polled_data) \<le> room d"
  shows "WritePolledDataToFile jw polled_data (Some f) d
           = disk_write f (closing_text jw polled_data) d"
proof -
  note fits = fits0 [unfolded closing_text_def]
  have w1: "WriteToFile (Some f) '']'' [] [] d = (1, disk_write f '']'' d)"
    using WriteToFile_fits [of "'']''" "[]" "[]" d f] stream fits by simp
  have stream1: "files (disk_write f '']'' d) f \<noteq> None" by simp
  show ?thesis
  proof (cases "polled_data = None \<or> snd (jw (the polled_data)) = []")
    case True
    have "WriteToFile (Some f) ''}\<newline>'' [] [] (disk_write f '']'' d)
            = (2, disk_write f ''}\<newline>'' (disk_write f '']'' d))"
      using WriteToFile_fits [of "''}\<newline>''" "[]" "[]" "disk_write f '']'' d" f] stream1 fits
      by simp
    with True w1 show ?thesis
      by (auto simp add: WritePolledDataToFile_def closing_text_def Let_def split: option.split)
  next
    case False
    then obtain v where v: "polled_data = Some v" "snd (jw v) \<noteq> []" by auto
    let ?mid = \<open>'',\<newline>"polledData": '' @ snd (jw v) @ ''\<newline>''\<close>
    have w2: \<open>WriteToFile (Some f) '',\<newline>"polledData": '' (snd (jw v)) ''\<newline>''
                 (disk_write f '']'' d)
            = (of_nat (length ?mid), disk_write f ?mid (disk_write f '']'' d))\<close>
      using WriteToFile_fits [of \<open>'',\<newline>"polledData": ''\<close> "snd (jw v)" "''\<newline>''"
          "disk_write f '']'' d" f] stream1 fits v
      by simp
    have "WriteToFile (Some f) ''}\<newline>'' [] [] (disk_write f ('']'' @ ?mid) d)
            = (2, disk_write f ''}\<newline>'' (disk_write f ('']'' @ ?mid) d))"
      using WriteToFile_fits [of "''}\<newline>''" "[]" "[]" "disk_write f ('']'' @ ?mid) d" f]
        stream fits v
      by simp
    with v w1 w2 show ?thesis
      by (simp add: WritePolledDataToFile_def closing_text_def Let_def)
  qed
qed


lemma closing_text_is_epilogue:
  "(\<forall>v. polled_data = Some v \<longrightarrow> fst (jw v) \<or> snd (jw v) = []) \<Longrightarrow>
   closing_text jw polled_data = epilogue jw polled_data"
  by (auto simp add: closing_text_def epilogue_def split: option.split)


lemma IsBounded_update [simp]:
  "IsBounded (fw\<lparr>wrote_event_bytes := b\<rparr>) = IsBounded fw"
  "IsBounded (fw\<lparr>current_event_file_size := n\<rparr>) = IsBounded fw"
  "IsBounded (fw\<lparr>current_event_file := h\<rparr>) = IsBounded fw"
  "IsBounded (fw\<lparr>final_log_file := h\<rparr>) = IsBounded fw"
  "IsBounded (fw\<lparr>current_event_file_number := n\<rparr>) = IsBounded fw"
  by (simp_all add: IsBounded_def IsUnbounded_def)

lemma IncrementCurrentEventFile_openable:
  assumes "openable d (GetEventFilePath fw (FileNumberToIndex fw (current_event_file_number fw + 1)))"
  shows "IncrementCurrentEventFile (fw, d)
           = (fw\<lparr>current_event_file_number := current_event_file_number fw + 1,
                 current_event_file :=
                   Some (GetEventFilePath fw
                           (FileNumberToIndex fw (current_event_file_number fw + 1))),
                 current_event_file_size := 0\<rparr>,
              (if current_event_file fw
                    = Some (GetEventFilePath fw
                              (FileNumberToIndex fw (current_event_file_number fw + 1)))
               then fclose_replaced
                      (GetEventFilePath fw
                         (FileNumberToIndex fw (current_event_file_number fw + 1)))
                      (Some (GetEventFilePath fw
                               (FileNumberToIndex fw (current_event_file_number fw + 1))))
                      d
                      (d\<lparr>files := (files d)(GetEventFilePath fw
                                 (FileNumberToIndex fw (current_event_file_number fw + 1)) \<mapsto> []),
                         pos := (pos d)(GetEventFilePath fw
                                 (FileNumberToIndex fw (current_event_file_number fw + 1)) := 0)\<rparr>)
               else d\<lparr>files := (files d)(GetEventFilePath fw
                                 (FileNumberToIndex fw (current_event_file_number fw + 1)) \<mapsto> []),
                       pos := (pos d)(GetEventFilePath fw
                                 (FileNumberToIndex fw (current_event_file_number fw + 1)) := 0)\<rparr>))"
proof -
  let ?fw1 = "fw\<lparr>current_event_file_number := current_event_file_number fw + 1\<rparr>"
  have same: "GetEventFilePath ?fw1 (FileNumberToIndex ?fw1 (current_event_file_number fw + 1))
              = GetEventFilePath fw (FileNumberToIndex fw (current_event_file_number fw + 1))"
    by (simp add: GetEventFilePath_def GetInprogressDirectory_def FileNumberToIndex_def)
  show ?thesis
    using assms
    by (auto simp add: IncrementCurrentEventFile_def Let_def same OpenFileForWrite_openable
        split: option.split)
qed

lemma IncrementCurrentEventFile_handle:
  "current_event_file (fst (IncrementCurrentEventFile (fw, d)))
     = fst (OpenFileForWrite
              (GetEventFilePath fw (FileNumberToIndex fw (current_event_file_number fw + 1))) d)"
proof -
  let ?fw1 = "fw\<lparr>current_event_file_number := current_event_file_number fw + 1\<rparr>"
  have same: "GetEventFilePath ?fw1 (FileNumberToIndex ?fw1 (current_event_file_number fw + 1))
              = GetEventFilePath fw (FileNumberToIndex fw (current_event_file_number fw + 1))"
    by (simp add: GetEventFilePath_def GetInprogressDirectory_def FileNumberToIndex_def)
  show ?thesis
    by (simp add: IncrementCurrentEventFile_def Let_def same split_def)
qed

lemma Flush_event_bounded:
  assumes "IsBounded fw"
  shows "Flush_event event (fw, d) =
     (let s1 = (if rotates fw then IncrementCurrentEventFile (fw, d) else (fw, d));
          w = WriteToFile (current_event_file (fst s1)) event '',\<newline>'' [] (snd s1)
      in ((fst s1)\<lparr>wrote_event_bytes := (wrote_event_bytes (fst s1) \<or> fst w > 0),
                     current_event_file_size := current_event_file_size (fst s1) + fst w\<rparr>,
          snd w))"
  using assms by (simp add: Flush_event_def Let_def split_def rotates_def)

lemma Flush_event_unbounded:
  assumes "\<not> IsBounded fw"
  shows "Flush_event event (fw, d) =
     (let w = WriteToFile (final_log_file fw) event '',\<newline>'' [] d
      in (fw\<lparr>wrote_event_bytes := (wrote_event_bytes fw \<or> fst w > 0)\<rparr>, snd w))"
  using assms by (simp add: Flush_event_def Let_def split_def)

lemma Flush_event_rotating_write:
  assumes b: "IsBounded fw" and r: "rotates fw"
    and o: "openable d (GetEventFilePath fw (FileNumberToIndex fw (current_event_file_number fw + 1)))"
    and room: "length event + 2 \<le> room d"
  shows "Flush_event event (fw, d) =
     (fw\<lparr>current_event_file_number := current_event_file_number fw + 1,
         current_event_file :=
           Some (GetEventFilePath fw (FileNumberToIndex fw (current_event_file_number fw + 1))),
         wrote_event_bytes := (wrote_event_bytes fw \<or> (of_nat (length event + 2) :: size_t) > 0),
         current_event_file_size := of_nat (length event + 2)\<rparr>,
      disk_write (GetEventFilePath fw (FileNumberToIndex fw (current_event_file_number fw + 1)))
        (event @ '',\<newline>'')
        (if current_event_file fw
              = Some (GetEventFilePath fw
                        (FileNumberToIndex fw (current_event_file_number fw + 1)))
         then fclose_replaced
                (GetEventFilePath fw (FileNumberToIndex fw (current_event_file_number fw + 1)))
                (Some (GetEventFilePath fw
                         (FileNumberToIndex fw (current_event_file_number fw + 1))))
                d
                (d\<lparr>files := (files d)(GetEventFilePath fw
                           (FileNumberToIndex fw (current_event_file_number fw + 1)) \<mapsto> []),
                   pos := (pos d)(GetEventFilePath fw
                           (FileNumberToIndex fw (current_event_file_number fw + 1)) := 0)\<rparr>)
         else d\<lparr>files := (files d)(GetEventFilePath fw
                           (FileNumberToIndex fw (current_event_file_number fw + 1)) \<mapsto> []),
                 pos := (pos d)(GetEventFilePath fw
                           (FileNumberToIndex fw (current_event_file_number fw + 1)) := 0)\<rparr>))"
proof -
  let ?p = "GetEventFilePath fw (FileNumberToIndex fw (current_event_file_number fw + 1))"
  let ?d1 = "d\<lparr>files := (files d)(?p \<mapsto> []), pos := (pos d)(?p := 0)\<rparr>"
  have w: "WriteToFile (Some ?p) event '',\<newline>'' [] d2
             = (of_nat (length event + 2), disk_write ?p (event @ '',\<newline>'') d2)"
    if "files d2 ?p \<noteq> None" "room d2 = room d" for d2
  proof -
    have "length event + length '',\<newline>'' + length ([] :: string) \<le> room d2"
      using room that(2) by simp
    from WriteToFile_fits [OF this that(1)] show ?thesis by simp
  qed
  show ?thesis
  proof (cases "current_event_file fw = Some ?p")
    case True
    have "files (fclose_replaced ?p (Some ?p) d ?d1) ?p \<noteq> None"
      "room (fclose_replaced ?p (Some ?p) d ?d1) = room d"
      by simp_all
    note w1 = w [OF this]
    show ?thesis
      using r True
      by (simp add: Flush_event_bounded [OF b] IncrementCurrentEventFile_openable [OF o]
          Let_def w1)
  next
    case False
    have "files ?d1 ?p \<noteq> None" "room ?d1 = room d"
      by simp_all
    note w1 = w [OF this]
    show ?thesis
      using r False
      by (simp add: Flush_event_bounded [OF b] IncrementCurrentEventFile_openable [OF o]
          Let_def w1)
  qed
qed

lemma Flush_event_plain_write:
  assumes b: "IsBounded fw" and r: "\<not> rotates fw"
    and h: "current_event_file fw = Some f" and e: "files d f \<noteq> None"
    and room: "length event + 2 \<le> room d"
  shows "Flush_event event (fw, d) =
     (fw\<lparr>wrote_event_bytes := (wrote_event_bytes fw \<or> (of_nat (length event + 2) :: size_t) > 0),
         current_event_file_size := current_event_file_size fw + of_nat (length event + 2)\<rparr>,
      disk_write f (event @ '',\<newline>'') d)"
proof -
  have w: "WriteToFile (Some f) event '',\<newline>'' [] d
             = (of_nat (length event + 2), disk_write f (event @ '',\<newline>'') d)"
    using WriteToFile_fits [of event "'',\<newline>''" "[]" d f] room e by simp
  show ?thesis
    using r h by (simp add: Flush_event_bounded [OF b] Let_def w)
qed

lemma size_t_of_nat_le:
  "n < 2 ^ 64 \<Longrightarrow> (m :: size_t) \<le> of_nat n \<longleftrightarrow> unat m \<le> n"
  by (simp add: word_le_nat_alt unat_of_nat)


lemma Flush_loop_unbounded_null:
  "\<not> IsBounded fw \<Longrightarrow> final_log_file fw = None \<Longrightarrow> Flush_loop events (fw, d) = (fw, d)"
  by (induction events) (simp_all add: Flush_event_unbounded)

lemma IncrementCurrentEventFile_unopenable:
  "\<forall>p. \<not> openable d p \<Longrightarrow>
   IncrementCurrentEventFile (fw, d)
     = (fw\<lparr>current_event_file_number := current_event_file_number fw + 1,
           current_event_file := None, current_event_file_size := 0\<rparr>, d)"
  by (simp add: IncrementCurrentEventFile_def Let_def split: option.split)

lemma Flush_loop_bounded_unopenable:
  "IsBounded fw \<Longrightarrow> \<forall>p. \<not> openable d p \<Longrightarrow> current_event_file fw = None \<Longrightarrow>
   snd (Flush_loop events (fw, d)) = d
   \<and> wrote_event_bytes (fst (Flush_loop events (fw, d))) = wrote_event_bytes fw
   \<and> current_event_file (fst (Flush_loop events (fw, d))) = None
   \<and> final_log_file (fst (Flush_loop events (fw, d))) = final_log_file fw
   \<and> IsBounded (fst (Flush_loop events (fw, d)))"
proof (induction events arbitrary: fw)
  case Nil
  then show ?case by simp
next
  case (Cons event events)
  let ?fw1 = "if rotates fw
              then fw\<lparr>current_event_file_number := current_event_file_number fw + 1,
                      current_event_file := None, current_event_file_size := 0\<rparr>
              else fw"
  have step: "Flush_event event (fw, d) = (?fw1, d)"
    using Cons.prems
    by (simp add: Flush_event_bounded IncrementCurrentEventFile_unopenable Let_def)
  have "IsBounded ?fw1" "current_event_file ?fw1 = None"
    "wrote_event_bytes ?fw1 = wrote_event_bytes fw" "final_log_file ?fw1 = final_log_file fw"
    using Cons.prems by simp_all
  with Cons.IH [of ?fw1] Cons.prems(2) show ?case
    by (simp only: Flush_loop.simps step) simp
qed

lemma stitch_loop_unopenable:
  "\<forall>p. \<not> openable d p \<Longrightarrow> stitch_loop fw k filenumber end_filenumber d = d"
proof (induction fw k filenumber end_filenumber d rule: stitch_loop.induct)
  case (1 fw k filenumber end_filenumber d)
  show ?case
  proof (cases "filenumber < end_filenumber")
    case True
    with 1 show ?thesis by (simp add: stitch_loop_step)
  next
    case False
    then show ?thesis by (simp add: stitch_loop_done)
  qed
qed

lemma StitchFinalLogFile_unopenable:
  "\<forall>p. \<not> openable d p \<Longrightarrow>
   StitchFinalLogFile (fw, d)
     = (fw\<lparr>current_event_file := None, final_log_file := None\<rparr>,
        DeleteFile (GetInprogressDirectory fw) True d)"
  by (simp add: StitchFinalLogFile_unfold stitch_loop_unopenable RewindIfWroteEventBytes_def)



lemma IncrementCurrentEventFile_room [simp]:
  "room (snd (IncrementCurrentEventFile (fw, d))) = room d"
  "openable (snd (IncrementCurrentEventFile (fw, d))) = openable d"
  by (simp_all add: IncrementCurrentEventFile_def Let_def split_def OpenFileForWrite_def
      fopen_wb_def split: option.split)



lemma Flush_loop_fold: "Flush_loop events s = fold Flush_event events s"
  by (induction events arbitrary: s) simp_all

lemma Flush_loop_append [simp]:
  "Flush_loop (before @ after) s = Flush_loop after (Flush_loop before s)"
  by (simp add: Flush_loop_fold)

lemma Flush_empty_queue:
  "queue wq = [] \<Longrightarrow> Flush wq s = (wq\<lparr>memory := 0\<rparr>, s)"
  by (simp add: Flush_def SwapQueue_def)


lemma stitch_loop_empty_window [simp]: "stitch_loop fw k 1 1 d = d"
  by (simp add: stitch_loop_done)

lemma bounded_chunk_limit:
  fixes S N :: size_t
  assumes "S \<noteq> kNoLimit" and "N \<noteq> 0"
  shows "S div N \<noteq> kNoLimit"
proof -
  have "S < - 1"
    using assms(1) by (simp add: kNoLimit_def word_order.not_eq_extremum)
  then have "unat S < 2 ^ 64 - 1"
    by (simp add: word_less_nat_alt unat_max_size_t)
  moreover have "unat (S div N) \<le> unat S"
    by (simp add: unat_div)
  ultimately have "unat (S div N) \<noteq> unat (- 1 :: size_t)"
    by (simp add: unat_max_size_t)
  then show ?thesis
    unfolding kNoLimit_def by metis
qed



lemma example_single_open_reached:
  "fst (Flush_event ''0123456789'' (example_single_writer, example_disk))
     = example_single_open_writer
   \<and> files (snd (Flush_event ''0123456789'' (example_single_writer, example_disk)))
       = files example_single_open_disk
   \<and> pos (snd (Flush_event ''0123456789'' (example_single_writer, example_disk)))
         ''netlog.json.inprogress/event_file_0.json''
       = pos example_single_open_disk ''netlog.json.inprogress/event_file_0.json''
   \<and> room (snd (Flush_event ''0123456789'' (example_single_writer, example_disk)))
       = room example_single_open_disk"
proof -
  have chunk: "GetEventFilePath example_single_writer (FileNumberToIndex example_single_writer 1)
                 = ''netlog.json.inprogress/event_file_0.json''"
    by (simp add: example_single_writer_def FileWriter_new_def GetEventFilePath_def
        GetInprogressDirectory_def FileNumberToIndex_def SizeTToString_def decimal.simps)
  have bounded: "IsBounded example_single_writer"
    by (simp add: example_single_writer_def FileWriter_new_def IsBounded_def IsUnbounded_def
        kNoLimit_def)
  have state: "rotates example_single_writer"
    "current_event_file_number example_single_writer = 0"
    "current_event_file example_single_writer = None"
    by (simp_all add: example_single_writer_def FileWriter_new_def rotates_def)
  have disk: "openable example_disk (GetEventFilePath example_single_writer
                 (FileNumberToIndex example_single_writer
                    (current_event_file_number example_single_writer + 1)))"
    "length ''0123456789'' + 2 \<le> room example_disk"
    by (simp_all add: example_disk_def)
  show ?thesis
    unfolding Flush_event_rotating_write [OF bounded state(1) disk] fst_conv snd_conv
    by (auto simp add: state chunk example_single_open_writer_def
        example_single_open_disk_def example_disk_def disk_write_def write_at_def contents_def)
qed
section \<open>Lemmas on runs that write no event bytes\<close>

lemma openable_kept [simp]:
  "openable (snd (OpenFileForWrite p d)) = openable d"
  "openable (snd (WriteToFile file data1 data2 data3 d)) = openable d"
  "openable (WriteConstantsToFile jw c file d) = openable d"
  "openable (CreateInprogressDirectory fw d) = openable d"
  "openable (WritePolledDataToFile jw polled_data file d) = openable d"
  by (auto simp add: OpenFileForWrite_def fopen_wb_def WriteToFile_def split_def Let_def
      fwrite_count WriteConstantsToFile_def CreateInprogressDirectory_def
      WritePolledDataToFile_def split: option.split)

lemma Initialize_openable [simp]:
  "openable (snd (Initialize jw c (fw, d))) = openable d"
  by (simp add: Initialize_def Let_def split_def)

lemma Flush_event_openable [simp]:
  "openable (snd (Flush_event event (fw, d))) = openable d"
  by (simp add: Flush_event_def Let_def split_def)

lemma path_fields_more [simp]:
  "GetEventFilePath (fw\<lparr>current_event_file_number := n\<rparr>) i = GetEventFilePath fw i"
  "GetEventFilePath (fw\<lparr>current_event_file_size := m\<rparr>) i = GetEventFilePath fw i"
  "GetEventFilePath (fw\<lparr>wrote_event_bytes := w\<rparr>) i = GetEventFilePath fw i"
  "FileNumberToIndex (fw\<lparr>current_event_file_number := n\<rparr>) k = FileNumberToIndex fw k"
  "FileNumberToIndex (fw\<lparr>current_event_file_size := m\<rparr>) k = FileNumberToIndex fw k"
  "FileNumberToIndex (fw\<lparr>wrote_event_bytes := w\<rparr>) k = FileNumberToIndex fw k"
  by (simp_all add: GetInprogressDirectory_def GetEventFilePath_def FileNumberToIndex_def)





lemma Stop_flag [simp]:
  "wrote_event_bytes (fst (Stop jw polled_data s)) = wrote_event_bytes (fst s)"
  by (simp add: Stop_def StitchFinalLogFile_def Let_def split_def)






















lemma Initialize_fields [simp]:
  "final_log_path (fst (Initialize jw c (fw, d))) = final_log_path fw"
  "total_num_event_files (fst (Initialize jw c (fw, d))) = total_num_event_files fw"
  "max_event_file_size (fst (Initialize jw c (fw, d))) = max_event_file_size fw"
  "current_event_file (fst (Initialize jw c (fw, d))) = current_event_file fw"
  "current_event_file_number (fst (Initialize jw c (fw, d))) = current_event_file_number fw"
  "current_event_file_size (fst (Initialize jw c (fw, d))) = current_event_file_size fw"
  by (simp_all add: Initialize_def Let_def split_def)

section \<open>The byte cap of the write queue\<close>

text \<open>
  C1. Whatever events are pushed on a new \<^verbatim>\<open>WriteQueue\<close> with cap \<open>cap\<close>, after each
  \<^verbatim>\<open>AddEntryToQueue\<close> the byte counter is at most the cap. One call, on a queue whose
  counter holds the bytes queued (\<open>wq_inv\<close>, true of a new queue and kept by the call),
  leaves the counter and the bytes really queued within the cap, and what it leaves is
  the old queue with the new event at the back, less its \<open>k\<close> oldest events, where every
  shorter drop would still exceed the cap: the events are dropped from the front while
  the count exceeds the cap. The call returns the length of the queue it leaves. An event
  larger than the cap leaves the queue empty and the call returns 0.
\<close>

theorem add_entry_keeps_queue_within_cap:
  "memory (push_all (WriteQueue_new cap) events) \<le> cap
   \<and> memory_max (push_all (WriteQueue_new cap) events) = cap
   \<and> wq_inv (WriteQueue_new cap)
   \<and> (wq_inv q \<and> queue_bytes (queue q) + length event < 2 ^ 64 \<longrightarrow>
        (let q' = fst (AddEntryToQueue q event); n = snd (AddEntryToQueue q event) in
           memory q' \<le> memory_max q'
         \<and> memory_max q' = memory_max q
         \<and> wq_inv q'
         \<and> queue_bytes (queue q') \<le> unat (memory_max q)
         \<and> (\<exists>k\<le>length (queue q) + 1.
               queue q' = drop k (queue q @ [event])
             \<and> (\<forall>j<k. unat (memory_max q) < queue_bytes (drop j (queue q @ [event]))))
         \<and> n = of_nat (length (queue q'))
         \<and> (unat (memory_max q) < length event \<longrightarrow> queue q' = [] \<and> n = 0)))"
proof -
  have new: "memory (WriteQueue_new cap) = of_nat (queue_bytes (queue (WriteQueue_new cap)))"
    "memory (WriteQueue_new cap) \<le> memory_max (WriteQueue_new cap)"
    "memory_max (WriteQueue_new cap) = cap"
    by (simp_all add: WriteQueue_new_def)
  have seq: "memory (push_all (WriteQueue_new cap) events) \<le> cap
           \<and> memory_max (push_all (WriteQueue_new cap) events) = cap"
    using push_all_within_cap [OF new(1) new(2), of events] new(3) by simp
  have inv0: "wq_inv (WriteQueue_new cap)"
    by (simp add: wq_inv_def WriteQueue_new_def)
  have step: "let q' = fst (AddEntryToQueue q event); n = snd (AddEntryToQueue q event) in
           memory q' \<le> memory_max q'
         \<and> memory_max q' = memory_max q
         \<and> wq_inv q'
         \<and> queue_bytes (queue q') \<le> unat (memory_max q)
         \<and> (\<exists>k\<le>length (queue q) + 1.
               queue q' = drop k (queue q @ [event])
             \<and> (\<forall>j<k. unat (memory_max q) < queue_bytes (drop j (queue q @ [event]))))
         \<and> n = of_nat (length (queue q'))
         \<and> (unat (memory_max q) < length event \<longrightarrow> queue q' = [] \<and> n = 0)"
    if inv: "wq_inv q" and fit: "queue_bytes (queue q) + length event < 2 ^ 64"
  proof -
    from AddEntryToQueue_spec [OF inv fit] obtain k where
      k: "k \<le> length (queue q) + 1"
      and eq: "AddEntryToQueue q event
             = (q\<lparr>memory := of_nat (queue_bytes (drop k (queue q @ [event]))),
                   queue := drop k (queue q @ [event])\<rparr>,
                of_nat (length (drop k (queue q @ [event]))))"
      and over: "\<forall>j<k. unat (memory_max q) < queue_bytes (drop j (queue q @ [event]))"
      and under: "queue_bytes (drop k (queue q @ [event])) \<le> unat (memory_max q)"
      and inv': "wq_inv (fst (AddEntryToQueue q event))"
      by blast
    have cap: "memory (fst (AddEntryToQueue q event)) \<le> memory_max q"
      by (rule AddEntryToQueue_word_inv(2) [OF wq_inv_word [OF inv]])
    have big: "queue (fst (AddEntryToQueue q event)) = []
             \<and> snd (AddEntryToQueue q event) = 0"
      if "unat (memory_max q) < length event"
    proof -
      have "k = length (queue q) + 1"
      proof (rule ccontr)
        assume "k \<noteq> length (queue q) + 1"
        with k have "k \<le> length (queue q)" by simp
        then have "length event \<le> queue_bytes (drop k (queue q @ [event]))"
          by simp
        with under that show False by simp
      qed
      then show ?thesis by (simp add: eq)
    qed
    show ?thesis
      using k over under inv' cap big
      by (auto simp add: Let_def eq intro!: exI [of _ k])
  qed
  from seq inv0 step show ?thesis by blast
qed

theorem add_entry_keeps_queue_within_cap_witness:
  "wq_inv \<lparr>queue = [''ab'', ''cd''], memory = 4, memory_max = 5\<rparr>
   \<and> queue_bytes [''ab'', ''cd''] + length ''efg'' < 2 ^ 64
   \<and> AddEntryToQueue \<lparr>queue = [''ab'', ''cd''], memory = 4, memory_max = 5\<rparr> ''efg''
       = (\<lparr>queue = [''cd'', ''efg''], memory = 5, memory_max = 5\<rparr>, 2)
   \<and> queue_bytes (queue (fst (AddEntryToQueue
         \<lparr>queue = [''ab'', ''cd''], memory = 4, memory_max = 5\<rparr> ''efg''))) \<le> 5
   \<and> unat (5 :: size_t) < length ''abcdefgh''
   \<and> queue (fst (AddEntryToQueue
         \<lparr>queue = [''ab'', ''cd''], memory = 4, memory_max = 5\<rparr> ''abcdefgh'')) = []
   \<and> snd (AddEntryToQueue
         \<lparr>queue = [''ab'', ''cd''], memory = 4, memory_max = 5\<rparr> ''abcdefgh'') = 0
   \<and> memory (push_all (WriteQueue_new 5) [''ab'', ''cd'', ''efg'']) \<le> 5"
proof -
  have inv: "wq_inv \<lparr>queue = [''ab'', ''cd''], memory = 4, memory_max = 5\<rparr>"
    by (simp add: wq_inv_def)
  have push: "AddEntryToQueue \<lparr>queue = [''ab'', ''cd''], memory = 4, memory_max = 5\<rparr> ''efg''
       = (\<lparr>queue = [''cd'', ''efg''], memory = 5, memory_max = 5\<rparr>, 2)"
    by (simp add: AddEntryToQueue_def Let_def drop_oldest.simps string_size_def)
  show ?thesis
    using inv push
      add_entry_keeps_queue_within_cap [of 5 "[''ab'', ''cd'', ''efg'']"
        "\<lparr>queue = [''ab'', ''cd''], memory = 4, memory_max = 5\<rparr>" "''efg''"]
      add_entry_keeps_queue_within_cap [of 5 "[''ab'', ''cd'', ''efg'']"
        "\<lparr>queue = [''ab'', ''cd''], memory = 4, memory_max = 5\<rparr>" "''abcdefgh''"]
    by (simp add: Let_def)
qed

section \<open>The stitching window\<close>

text \<open>
  C2. In a writer with \<open>N \<ge> 1\<close> chunks whose current file number \<open>fn\<close> is not
  \<^verbatim>\<open>SIZE_MAX\<close>, \<^verbatim>\<open>StitchFinalLogFile\<close> reopens the final file, appends the constants
  file, then appends and deletes the chunk files of exactly the file numbers
  \<open>begin, \<dots>, end - 1\<close> in increasing order, where \<open>end = fn + 1\<close> and \<open>begin = 1\<close> if
  \<open>fn \<le> N\<close>, else \<open>end - N\<close>; then it rewinds, appends the closing file and deletes the
  directory. The file number \<open>n\<close> of the window has index \<open>(n - 1) mod N\<close> and is read
  from \<^verbatim>\<open>event_file_<(n - 1) mod N>.json\<close> in the in-progress directory.
\<close>

theorem stitch_copies_live_window:
  assumes chunks: "total_num_event_files fw \<noteq> 0"
    and no_wrap: "current_event_file_number fw \<noteq> - 1"
  shows "let fn = unat (current_event_file_number fw);
             N = unat (total_num_event_files fw);
             end_filenumber = fn + 1;
             begin_filenumber = (if fn \<le> N then 1 else end_filenumber - N);
             h = fst (OpenFileForWrite (final_log_path fw) d);
             d1 = snd (OpenFileForWrite (final_log_path fw) d);
             d2 = AppendToFileThenDelete (GetConstantsFilePath fw) h (2 ^ 16) d1;
             d3 = fold (\<lambda>n. AppendToFileThenDelete
                               (final_log_path fw @ ''.inprogress/event_file_''
                                  @ decimal ((n - 1) mod N) @ ''.json'')
                               h (2 ^ 16))
                    [begin_filenumber..<end_filenumber] d2;
             d4 = RewindIfWroteEventBytes fw h d3;
             d5 = AppendToFileThenDelete (GetClosingFilePath fw) h (2 ^ 16) d4
         in StitchFinalLogFile (fw, d)
              = (fw\<lparr>current_event_file := None, final_log_file := h\<rparr>,
                 DeleteFile (GetInprogressDirectory fw) True d5)
          \<and> (\<forall>n\<in>set [begin_filenumber..<end_filenumber].
                unat (FileNumberToIndex fw (of_nat n)) = (n - 1) mod N
              \<and> GetEventFilePath fw (FileNumberToIndex fw (of_nat n))
                  = final_log_path fw @ ''.inprogress/event_file_''
                      @ decimal ((n - 1) mod N) @ ''.json'')"
proof -
  define fn where "fn = unat (current_event_file_number fw)"
  define N where "N = unat (total_num_event_files fw)"
  define b where "b = (if fn \<le> N then 1 else fn + 1 - N)"
  define h where "h = fst (OpenFileForWrite (final_log_path fw) d)"
  have fn_lt: "fn + 1 < 2 ^ 64"
  proof -
    have "current_event_file_number fw < - 1"
      using no_wrap by (simp add: word_order.not_eq_extremum)
    then have "fn < unat (- 1 :: size_t)"
      unfolding fn_def by (simp only: word_less_nat_alt)
    then show ?thesis by (simp add: unat_max_size_t)
  qed
  have b_pos: "0 < b" and b_le: "b \<le> fn + 1"
    by (simp_all add: b_def)
  have in_window: "0 < n \<and> n < 2 ^ 64" if "n \<in> set [b..<fn + 1]" for n
    using that b_pos fn_lt by auto
  have path: "GetEventFilePath fw (FileNumberToIndex fw (of_nat n))
                = final_log_path fw @ ''.inprogress/event_file_''
                    @ decimal ((n - 1) mod N) @ ''.json''"
    if "n \<in> set [b..<fn + 1]" for n
    using event_file_path [OF chunks, of n] in_window [OF that] by (simp add: N_def)
  have index: "unat (FileNumberToIndex fw (of_nat n)) = (n - 1) mod N"
    if "n \<in> set [b..<fn + 1]" for n
  proof -
    from in_window [OF that] have n: "0 < n" "n < 2 ^ 64" by simp_all
    have "(n - 1) mod N < 2 ^ 64"
      using n by (meson less_imp_diff_less mod_less_eq_dividend order_le_less_trans)
    then show ?thesis
      using FileNumberToIndex_of_nat [OF chunks n] by (simp add: N_def unat_of_nat)
  qed
  let ?fw2 = "fw\<lparr>current_event_file := None, final_log_file := h\<rparr>"
  have loop: "stitch_loop ?fw2 k (of_nat b) (of_nat (fn + 1)) d' =
      fold (\<lambda>n. AppendToFileThenDelete
                   (final_log_path fw @ ''.inprogress/event_file_''
                      @ decimal ((n - 1) mod N) @ ''.json'')
                   h k)
        [b..<fn + 1] d'" for k d'
  proof -
    have "stitch_loop ?fw2 k (of_nat b) (of_nat (fn + 1)) d' =
        fold (\<lambda>n. AppendToFileThenDelete
                     (GetEventFilePath ?fw2 (FileNumberToIndex ?fw2 (of_nat n)))
                     (final_log_file ?fw2) k)
          [b..<fn + 1] d'"
      by (rule stitch_loop_fold [OF fn_lt b_le])
    also have "\<dots> = fold (\<lambda>n. AppendToFileThenDelete
                   (final_log_path fw @ ''.inprogress/event_file_''
                      @ decimal ((n - 1) mod N) @ ''.json'')
                   h k)
        [b..<fn + 1] d'"
      by (rule fold_cong) (simp_all add: path)
    finally show ?thesis .
  qed
  have words: "current_event_file_number fw + 1 = of_nat (fn + 1)"
    "(if current_event_file_number fw \<le> total_num_event_files fw then 1
      else current_event_file_number fw + 1 - total_num_event_files fw) = of_nat b"
    using stitch_window_words(1) [OF no_wrap]
      stitch_window_words(2) [OF no_wrap, of "total_num_event_files fw"]
    by (simp_all add: fn_def N_def b_def)
  have stitch: "StitchFinalLogFile (fw, d)
      = (?fw2,
         DeleteFile (GetInprogressDirectory fw) True
           (AppendToFileThenDelete (GetClosingFilePath fw) h (2 ^ 16)
              (RewindIfWroteEventBytes fw h
                 (fold (\<lambda>n. AppendToFileThenDelete
                               (final_log_path fw @ ''.inprogress/event_file_''
                                  @ decimal ((n - 1) mod N) @ ''.json'')
                               h (2 ^ 16))
                    [b..<fn + 1]
                    (AppendToFileThenDelete (GetConstantsFilePath fw) h (2 ^ 16)
                       (snd (OpenFileForWrite (final_log_path fw) d)))))))"
    by (rule StitchFinalLogFile_unfold [of fw d, folded h_def, unfolded words(2),
          unfolded words(1), unfolded loop])
  show ?thesis
    unfolding Let_def fn_def [symmetric] N_def [symmetric] b_def [symmetric] h_def [symmetric]
    using stitch path index by simp
qed

theorem stitch_copies_live_window_witness:
  "total_num_event_files example_wrapped_writer \<noteq> 0
   \<and> current_event_file_number example_wrapped_writer \<noteq> - 1
   \<and> map (\<lambda>n. unat (FileNumberToIndex example_wrapped_writer (of_nat n))) [5..<8] = [1, 2, 0]
   \<and> contents (snd (StitchFinalLogFile (example_wrapped_writer, example_wrapped_disk)))
         ''netlog.json'' = ''fivesixseven''"
proof -
  have window: "[5..<8] = [5, 6, 7 :: nat]"
    by (simp add: upt_conv_Cons)
  have writer: "total_num_event_files example_wrapped_writer \<noteq> 0"
    "current_event_file_number example_wrapped_writer \<noteq> - 1"
    by (simp_all add: example_wrapped_writer_def FileWriter_new_def)
  from stitch_copies_live_window [OF writer, of example_wrapped_disk]
  have "contents (snd (StitchFinalLogFile (example_wrapped_writer, example_wrapped_disk)))
         ''netlog.json'' = ''fivesixseven''"
    apply (simp add: example_wrapped_writer_def FileWriter_new_def Let_def window
        del: One_nat_def)
    apply (simp add: decimal.simps)
    apply (simp add: example_wrapped_disk_def example_disk_def GetConstantsFilePath_def
        GetClosingFilePath_def GetInprogressDirectory_def OpenFileForWrite_openable)
    apply (simp add: AppendToFileThenDelete_fits contents_def write_at_def
        RewindIfWroteEventBytes_def is_under_def)
    done
  moreover have "map (\<lambda>n. unat (FileNumberToIndex example_wrapped_writer (of_nat n))) [5..<8]
                   = [1, 2, 0]"
    by (simp add: window FileNumberToIndex_def example_wrapped_writer_def FileWriter_new_def)
  ultimately show ?thesis using writer by simp
qed

section \<open>File numbers and the chunk ring\<close>

text \<open>
  C3. With \<open>N \<ge> 1\<close> chunks and a file number \<open>fn \<ge> 1\<close>, \<^verbatim>\<open>FileNumberToIndex\<close> is
  \<open>(fn - 1) mod N\<close>, an index below \<open>N\<close>, and
  \<open>fn = ((fn - 1) div N) * N + (index + 1)\<close>. The file number is 0 in a new writer and
  each rotation adds 1 to it; the \<^verbatim>\<open>size_t\<close> counter does not wrap as long as it is not
  \<^verbatim>\<open>SIZE_MAX\<close>, that is before \<open>2\<^sup>6\<^sup>4 - 1\<close> rotations. Draining a queue never
  lowers it and raises it by at most one per event.
\<close>

theorem file_number_and_index:
  "(total_num_event_files fw \<noteq> 0 \<and> fn \<noteq> 0 \<longrightarrow>
      FileNumberToIndex fw fn = (fn - 1) mod total_num_event_files fw
    \<and> unat (FileNumberToIndex fw fn) = (unat fn - 1) mod unat (total_num_event_files fw)
    \<and> unat (FileNumberToIndex fw fn) < unat (total_num_event_files fw)
    \<and> unat fn = (unat fn - 1) div unat (total_num_event_files fw)
                   * unat (total_num_event_files fw)
                 + (unat (FileNumberToIndex fw fn) + 1))
   \<and> current_event_file_number (FileWriter_new log_path max_size num_files indeterminate) = 0
   \<and> current_event_file_number (fst (IncrementCurrentEventFile (fw, d)))
       = current_event_file_number fw + 1
   \<and> (current_event_file_number fw \<noteq> - 1 \<longrightarrow>
        unat (current_event_file_number (fst (IncrementCurrentEventFile (fw, d))))
          = unat (current_event_file_number fw) + 1)
   \<and> (unat (current_event_file_number fw) + length events < 2 ^ 64 \<longrightarrow>
        unat (current_event_file_number fw)
          \<le> unat (current_event_file_number (fst (Flush_loop events (fw, d))))
      \<and> unat (current_event_file_number (fst (Flush_loop events (fw, d))))
          \<le> unat (current_event_file_number fw) + length events)"
proof -
  have idx: "unat (FileNumberToIndex fw fn) = (unat fn - 1) mod unat (total_num_event_files fw)
    \<and> unat (FileNumberToIndex fw fn) < unat (total_num_event_files fw)
    \<and> unat fn = (unat fn - 1) div unat (total_num_event_files fw)
                   * unat (total_num_event_files fw)
                 + (unat (FileNumberToIndex fw fn) + 1)"
    if n: "total_num_event_files fw \<noteq> 0" and f: "fn \<noteq> 0"
  proof -
    have pos: "0 < unat (total_num_event_files fw)" "0 < unat fn"
      using n f by (simp_all add: unat_gt_0)
    have eq: "unat (FileNumberToIndex fw fn) = (unat fn - 1) mod unat (total_num_event_files fw)"
      by (rule FileNumberToIndex_unat [OF n f])
    have "unat fn - 1 = (unat fn - 1) div unat (total_num_event_files fw)
                   * unat (total_num_event_files fw)
                 + (unat fn - 1) mod unat (total_num_event_files fw)"
      by simp
    with pos eq show ?thesis by simp
  qed
  have def: "FileNumberToIndex fw fn = (fn - 1) mod total_num_event_files fw"
    by (simp add: FileNumberToIndex_def)
  have new: "current_event_file_number (FileWriter_new log_path max_size num_files indeterminate) = 0"
    by (simp add: FileWriter_new_def)
  have inc: "current_event_file_number (fst (IncrementCurrentEventFile (fw, d)))
       = current_event_file_number fw + 1"
    by simp
  have inc_nat: "unat (current_event_file_number (fst (IncrementCurrentEventFile (fw, d))))
          = unat (current_event_file_number fw) + 1"
    if "current_event_file_number fw \<noteq> - 1"
    using unat_plus_one [OF that] by simp
  note loop = Flush_loop_number [of fw events d]
  from def idx new inc inc_nat loop show ?thesis by blast
qed

theorem file_number_and_index_witness:
  "total_num_event_files (FileWriter_new ''netlog.json'' 10 3 0) \<noteq> 0
   \<and> (7 :: size_t) \<noteq> 0
   \<and> FileNumberToIndex (FileWriter_new ''netlog.json'' 10 3 0) 7 = 0
   \<and> unat (7 :: size_t) = (unat (7 :: size_t) - 1) div 3 * 3 + (0 + 1)
   \<and> current_event_file_number (FileWriter_new ''netlog.json'' 10 3 0) \<noteq> - 1
   \<and> unat (current_event_file_number (fst (IncrementCurrentEventFile
         (FileWriter_new ''netlog.json'' 10 3 0,
          \<lparr>files = (\<lambda>p. None), pos = (\<lambda>p. 0), room = 1000, openable = (\<lambda>p. True)\<rparr>)))) = 1
   \<and> unat (current_event_file_number (FileWriter_new ''netlog.json'' 10 3 0))
         + length [''{}''] < 2 ^ 64
   \<and> unat (current_event_file_number (fst (Flush_loop [''{}'']
         (FileWriter_new ''netlog.json'' 10 3 0,
          \<lparr>files = (\<lambda>p. None), pos = (\<lambda>p. 0), room = 1000, openable = (\<lambda>p. True)\<rparr>)))) \<le> 1"
  using file_number_and_index [of "FileWriter_new ''netlog.json'' 10 3 0" 7
      "''netlog.json''" 10 3 0
      "\<lparr>files = (\<lambda>p. None), pos = (\<lambda>p. 0), room = 1000, openable = (\<lambda>p. True)\<rparr>"
      "[''{}'']"]
  by (simp add: FileWriter_new_def)

section \<open>Rotation before a write\<close>

text \<open>
  C4. \<^verbatim>\<open>Flush\<close> empties the write queue and passes every record it held, oldest first,
  through the body of its loop. In bounded mode that body, for the record \<open>event\<close>,
  rotates before the write if and only if the file number is 0 or the bytes of the
  current chunk have reached \<^verbatim>\<open>max_event_file_size_\<close>; a rotation adds 1 to the file
  number and opens the chunk of the new number, and without one the current chunk stays.
  The limit is soft: when the chunk is open and the device has room, the record and its
  separator are written in full to the one chunk, whatever the record's size, and no
  other file changes. After a rotation they stand at the start of the new chunk. They
  are all that it holds, unless the stream before was on the same file, as in a ring of
  one chunk: then the closing of that stream has put the text of its buffer in the
  reopened file, and what of it is longer than the record stays behind the record.
  Without a rotation the record follows the text of the current chunk. A record at
  least as large as the limit, written to a new chunk, makes the next record rotate; so
  does a write that made the current chunk reach the limit. The writer is in bounded
  mode after the record as before, so all this holds for each record of the queue in
  turn.
\<close>

theorem flush_rotates_before_write:
  assumes bounded: "IsBounded fw"
  shows
  \<open>let fw' = fst (Flush_event event (fw, d));
       d' = snd (Flush_event event (fw, d));
       chunk = GetEventFilePath fw (FileNumberToIndex fw (current_event_file_number fw + 1))
   in Flush wq (fw, d)
        = (wq\<lparr>queue := [], memory := 0\<rparr>, fold Flush_event (queue wq) (fw, d))
    \<and> IsBounded fw'
    \<and> rotates fw = (current_event_file_number fw = 0
                    \<or> max_event_file_size fw \<le> current_event_file_size fw)
    \<and> current_event_file_number fw'
        = (if rotates fw then current_event_file_number fw + 1 else current_event_file_number fw)
    \<and> (rotates fw \<longrightarrow> current_event_file fw' = fst (OpenFileForWrite chunk d))
    \<and> (\<not> rotates fw \<longrightarrow> current_event_file fw' = current_event_file fw)
    \<and> (rotates fw \<and> openable d chunk \<and> length event + 2 \<le> room d \<longrightarrow>
          current_event_file fw' = Some chunk
        \<and> contents d' chunk
            = write_at 0
                (if current_event_file fw = Some chunk \<and> 0 < buffered d chunk
                 then replicate (pos d chunk - buffered d chunk) (CHR 0x00)
                      @ buffer_text d chunk
                 else [])
                (event @ '',\<newline>'')
        \<and> (current_event_file fw \<noteq> Some chunk \<longrightarrow> contents d' chunk = event @ '',\<newline>'')
        \<and> current_event_file_size fw' = of_nat (length event + 2)
        \<and> (\<forall>g. g \<noteq> chunk \<longrightarrow> files d' g = files d g))
    \<and> (\<not> rotates fw \<and> current_event_file fw = Some f \<and> files d f \<noteq> None
        \<and> pos d f = length (contents d f) \<and> length event + 2 \<le> room d \<longrightarrow>
          contents d' f = contents d f @ event @ '',\<newline>''
        \<and> current_event_file_size fw'
            = current_event_file_size fw + of_nat (length event + 2)
        \<and> (\<forall>g. g \<noteq> f \<longrightarrow> files d' g = files d g))
    \<and> (rotates fw \<and> openable d chunk \<and> length event + 2 \<le> room d
        \<and> length event + 2 < 2 ^ 64
        \<and> unat (max_event_file_size fw) \<le> length event + 2 \<longrightarrow>
          rotates fw'
        \<and> current_event_file_number (fst (Flush_event next_event (fw', d')))
            = current_event_file_number fw + 2)
    \<and> (\<not> rotates fw \<and> current_event_file fw = Some f \<and> files d f \<noteq> None
        \<and> length event + 2 \<le> room d
        \<and> unat (current_event_file_size fw) + (length event + 2) < 2 ^ 64
        \<and> unat (max_event_file_size fw) \<le> unat (current_event_file_size fw) + (length event + 2)
        \<longrightarrow>
          rotates fw'
        \<and> current_event_file_number (fst (Flush_event next_event (fw', d')))
            = current_event_file_number fw + 1)\<close>
proof -
  let ?chunk = "GetEventFilePath fw (FileNumberToIndex fw (current_event_file_number fw + 1))"
  define fw' where "fw' = fst (Flush_event event (fw, d))"
  define d' where "d' = snd (Flush_event event (fw, d))"
  have step: "Flush_event event (fw, d) = (fw', d')"
    by (simp add: fw'_def d'_def)
  have drained: "Flush wq (fw, d)
        = (wq\<lparr>queue := [], memory := 0\<rparr>, fold Flush_event (queue wq) (fw, d))"
    by (simp add: Flush_def SwapQueue_def Flush_loop_fold)
  have bounded': "IsBounded fw'"
    using IsBounded_Flush_event [of event fw d] bounded by (simp add: step)
  have next_number: "current_event_file_number (fst (Flush_event next_event (fw', d')))
      = (if rotates fw' then current_event_file_number fw' + 1 else current_event_file_number fw')"
    using bounded' by simp
  have test: "rotates fw = (current_event_file_number fw = 0
                    \<or> max_event_file_size fw \<le> current_event_file_size fw)"
    by (simp add: rotates_def)
  have number: "current_event_file_number fw'
        = (if rotates fw then current_event_file_number fw + 1 else current_event_file_number fw)"
    using Flush_event_fields(1) [of event fw d] bounded by (simp add: step)
  have opened: "current_event_file fw' = fst (OpenFileForWrite ?chunk d)" if "rotates fw"
    using that
    by (simp add: fw'_def Flush_event_bounded [OF bounded] Let_def
        IncrementCurrentEventFile_handle)
  have kept: "current_event_file fw' = current_event_file fw" if "\<not> rotates fw"
    using that by (simp add: fw'_def Flush_event_bounded [OF bounded] Let_def)
  have fresh: "current_event_file fw' = Some ?chunk
        \<and> contents d' ?chunk
            = write_at 0
                (if current_event_file fw = Some ?chunk \<and> 0 < buffered d ?chunk
                 then replicate (pos d ?chunk - buffered d ?chunk) (CHR 0x00)
                      @ buffer_text d ?chunk
                 else [])
                (event @ '',\<newline>'')
        \<and> (current_event_file fw \<noteq> Some ?chunk \<longrightarrow> contents d' ?chunk = event @ '',\<newline>'')
        \<and> current_event_file_size fw' = of_nat (length event + 2)
        \<and> (\<forall>g. g \<noteq> ?chunk \<longrightarrow> files d' g = files d g)"
    if "rotates fw" "openable d ?chunk" "length event + 2 \<le> room d"
  proof (cases "current_event_file fw = Some ?chunk")
    case True
    show ?thesis
      by (simp add: fw'_def d'_def Flush_event_rotating_write [OF bounded that] True
          fclose_replaced_def contents_def write_at_def)
  next
    case False
    show ?thesis
      using False
      by (simp add: fw'_def d'_def Flush_event_rotating_write [OF bounded that]
          contents_def write_at_def)
  qed
  have appended: "contents d' f = contents d f @ event @ '',\<newline>''
        \<and> current_event_file_size fw'
            = current_event_file_size fw + of_nat (length event + 2)
        \<and> (\<forall>g. g \<noteq> f \<longrightarrow> files d' g = files d g)"
    if "\<not> rotates fw" "current_event_file fw = Some f" "files d f \<noteq> None"
      "pos d f = length (contents d f)" "length event + 2 \<le> room d"
    using that(4)
    by (simp add: fw'_def d'_def Flush_event_plain_write [OF bounded that(1,2,3,5)])
  have large: "rotates fw'
        \<and> current_event_file_number (fst (Flush_event next_event (fw', d')))
            = current_event_file_number fw + 2"
    if r: "rotates fw" and o: "openable d ?chunk" and room: "length event + 2 \<le> room d"
      and fit: "length event + 2 < 2 ^ 64"
      and big: "unat (max_event_file_size fw) \<le> length event + 2"
  proof -
    have size: "current_event_file_size fw' = of_nat (length event + 2)"
      and max: "max_event_file_size fw' = max_event_file_size fw"
      by (simp_all add: fw'_def Flush_event_rotating_write [OF bounded r o room])
    have "max_event_file_size fw' \<le> current_event_file_size fw'"
      unfolding size max using big by (simp only: size_t_of_nat_le [OF fit])
    then have rot': "rotates fw'" by (simp add: rotates_def)
    with next_number number r show ?thesis by simp
  qed
  have crossing: "rotates fw'
        \<and> current_event_file_number (fst (Flush_event next_event (fw', d')))
            = current_event_file_number fw + 1"
    if r: "\<not> rotates fw" and h: "current_event_file fw = Some f" and e: "files d f \<noteq> None"
      and room: "length event + 2 \<le> room d"
      and fit: "unat (current_event_file_size fw) + (length event + 2) < 2 ^ 64"
      and big: "unat (max_event_file_size fw)
                  \<le> unat (current_event_file_size fw) + (length event + 2)"
  proof -
    have size: "current_event_file_size fw'
                  = current_event_file_size fw + of_nat (length event + 2)"
      and max: "max_event_file_size fw' = max_event_file_size fw"
      by (simp_all add: fw'_def Flush_event_plain_write [OF bounded r h e room])
    have "current_event_file_size fw + of_nat (length event + 2)
            = (of_nat (unat (current_event_file_size fw) + (length event + 2)) :: size_t)"
      by simp
    then have "max_event_file_size fw' \<le> current_event_file_size fw'"
      unfolding size max using big by (simp only: size_t_of_nat_le [OF fit])
    then have rot': "rotates fw'" by (simp add: rotates_def)
    with next_number number r show ?thesis by simp
  qed
  show ?thesis
    unfolding Let_def step fst_conv snd_conv
    using drained bounded' test number opened kept fresh appended large crossing by blast
qed

theorem flush_rotates_before_write_witness:
  \<open>(IsBounded example_bounded_writer
   \<and> rotates example_bounded_writer
   \<and> openable example_disk ''netlog.json.inprogress/event_file_0.json''
   \<and> length ''0123456789'' + 2 \<le> room example_disk
   \<and> unat (max_event_file_size example_bounded_writer) \<le> length ''0123456789'' + 2
   \<and> Flush example_queue (example_bounded_writer, example_disk)
       = (\<lparr>queue = [], memory = 0, memory_max = 100\<rparr>,
          Flush_event ''[]'' (Flush_event ''{}'' (example_bounded_writer, example_disk)))
   \<and> contents (snd (Flush_event ''0123456789'' (example_bounded_writer, example_disk)))
         ''netlog.json.inprogress/event_file_0.json'' = ''0123456789,\<newline>''
   \<and> current_event_file_number
         (fst (Flush_event ''0123456789'' (example_bounded_writer, example_disk))) = 1
   \<and> current_event_file_number
         (fst (Flush_event ''{}''
                 (fst (Flush_event ''0123456789'' (example_bounded_writer, example_disk)),
                  snd (Flush_event ''0123456789'' (example_bounded_writer, example_disk)))))
       = 2)
   \<and> (IsBounded example_open_writer
   \<and> \<not> rotates example_open_writer
   \<and> current_event_file example_open_writer = Some ''netlog.json.inprogress/event_file_0.json''
   \<and> files example_open_disk ''netlog.json.inprogress/event_file_0.json'' \<noteq> None
   \<and> pos example_open_disk ''netlog.json.inprogress/event_file_0.json''
       = length (contents example_open_disk ''netlog.json.inprogress/event_file_0.json'')
   \<and> length ''123456'' + 2 \<le> room example_open_disk
   \<and> unat (max_event_file_size example_open_writer)
       \<le> unat (current_event_file_size example_open_writer) + (length ''123456'' + 2)
   \<and> contents (snd (Flush_event ''123456'' (example_open_writer, example_open_disk)))
         ''netlog.json.inprogress/event_file_0.json'' = ''{},\<newline>123456,\<newline>''
   \<and> current_event_file_number
         (fst (Flush_event ''123456'' (example_open_writer, example_open_disk))) = 1
   \<and> rotates (fst (Flush_event ''123456'' (example_open_writer, example_open_disk))))
   \<and> (IsBounded example_single_open_writer
   \<and> rotates example_single_open_writer
   \<and> current_event_file example_single_open_writer
       = Some ''netlog.json.inprogress/event_file_0.json''
   \<and> openable example_single_open_disk ''netlog.json.inprogress/event_file_0.json''
   \<and> buffered example_single_open_disk ''netlog.json.inprogress/event_file_0.json'' = 12
   \<and> length ''ab'' + 2 \<le> room example_single_open_disk
   \<and> contents (snd (Flush_event ''ab'' (example_single_open_writer, example_single_open_disk)))
         ''netlog.json.inprogress/event_file_0.json'' = ''ab,\<newline>456789,\<newline>''
   \<and> current_event_file_number
         (fst (Flush_event ''ab'' (example_single_open_writer, example_single_open_disk))) = 2)\<close>
proof -
  have rotating:
    \<open>IsBounded example_bounded_writer
   \<and> rotates example_bounded_writer
   \<and> openable example_disk ''netlog.json.inprogress/event_file_0.json''
   \<and> length ''0123456789'' + 2 \<le> room example_disk
   \<and> unat (max_event_file_size example_bounded_writer) \<le> length ''0123456789'' + 2
   \<and> Flush example_queue (example_bounded_writer, example_disk)
       = (\<lparr>queue = [], memory = 0, memory_max = 100\<rparr>,
          Flush_event ''[]'' (Flush_event ''{}'' (example_bounded_writer, example_disk)))
   \<and> contents (snd (Flush_event ''0123456789'' (example_bounded_writer, example_disk)))
         ''netlog.json.inprogress/event_file_0.json'' = ''0123456789,\<newline>''
   \<and> current_event_file_number
         (fst (Flush_event ''0123456789'' (example_bounded_writer, example_disk))) = 1
   \<and> current_event_file_number
         (fst (Flush_event ''{}''
                 (fst (Flush_event ''0123456789'' (example_bounded_writer, example_disk)),
                  snd (Flush_event ''0123456789'' (example_bounded_writer, example_disk)))))
       = 2\<close>
  proof -
    have chunk: "GetEventFilePath example_bounded_writer
                   (FileNumberToIndex example_bounded_writer 1)
                 = ''netlog.json.inprogress/event_file_0.json''"
      by (simp add: example_bounded_writer_def FileWriter_new_def GetEventFilePath_def
          GetInprogressDirectory_def FileNumberToIndex_def SizeTToString_def decimal.simps)
    have bounded: "IsBounded example_bounded_writer"
      by (simp add: example_bounded_writer_def FileWriter_new_def IsBounded_def IsUnbounded_def
          kNoLimit_def)
    have state: "rotates example_bounded_writer"
      "current_event_file_number example_bounded_writer = 0"
      "current_event_file example_bounded_writer = None"
      "unat (max_event_file_size example_bounded_writer) = 10"
      by (simp_all add: example_bounded_writer_def FileWriter_new_def rotates_def)
    have disk: "openable example_disk ''netlog.json.inprogress/event_file_0.json''"
      "room example_disk = 1000"
      by (simp_all add: example_disk_def)
    show ?thesis
      using flush_rotates_before_write [OF bounded, of "''0123456789''" example_disk
          example_queue _ "''{}''"]
        bounded state disk
      by (simp add: Let_def chunk example_queue_def write_at_def del: Flush_event_fields)
  qed
  have appending:
    \<open>IsBounded example_open_writer
   \<and> \<not> rotates example_open_writer
   \<and> current_event_file example_open_writer = Some ''netlog.json.inprogress/event_file_0.json''
   \<and> files example_open_disk ''netlog.json.inprogress/event_file_0.json'' \<noteq> None
   \<and> pos example_open_disk ''netlog.json.inprogress/event_file_0.json''
       = length (contents example_open_disk ''netlog.json.inprogress/event_file_0.json'')
   \<and> length ''123456'' + 2 \<le> room example_open_disk
   \<and> unat (max_event_file_size example_open_writer)
       \<le> unat (current_event_file_size example_open_writer) + (length ''123456'' + 2)
   \<and> contents (snd (Flush_event ''123456'' (example_open_writer, example_open_disk)))
         ''netlog.json.inprogress/event_file_0.json'' = ''{},\<newline>123456,\<newline>''
   \<and> current_event_file_number
         (fst (Flush_event ''123456'' (example_open_writer, example_open_disk))) = 1
   \<and> rotates (fst (Flush_event ''123456'' (example_open_writer, example_open_disk)))\<close>
  proof -
    have bounded: "IsBounded example_open_writer"
      by (simp add: example_open_writer_def example_bounded_writer_def FileWriter_new_def
          IsBounded_def IsUnbounded_def kNoLimit_def)
    have state: "\<not> rotates example_open_writer"
      "current_event_file example_open_writer = Some ''netlog.json.inprogress/event_file_0.json''"
      "current_event_file_number example_open_writer = 1"
      "unat (max_event_file_size example_open_writer) = 10"
      "unat (current_event_file_size example_open_writer) = 4"
      by (simp_all add: example_open_writer_def example_bounded_writer_def FileWriter_new_def
          rotates_def)
    have disk: "files example_open_disk ''netlog.json.inprogress/event_file_0.json''
                  = Some ''{},\<newline>''"
      "contents example_open_disk ''netlog.json.inprogress/event_file_0.json'' = ''{},\<newline>''"
      "pos example_open_disk ''netlog.json.inprogress/event_file_0.json'' = 4"
      "room example_open_disk = 1000"
      by (simp_all add: example_open_disk_def example_disk_def contents_def)
    show ?thesis
      using flush_rotates_before_write [OF bounded, of "''123456''" example_open_disk _
          "''netlog.json.inprogress/event_file_0.json''" "''{}''"]
        bounded state disk
      by (simp add: Let_def del: Flush_event_fields)
  qed
  have ring_of_one:
    \<open>IsBounded example_single_open_writer
   \<and> rotates example_single_open_writer
   \<and> current_event_file example_single_open_writer
       = Some ''netlog.json.inprogress/event_file_0.json''
   \<and> openable example_single_open_disk ''netlog.json.inprogress/event_file_0.json''
   \<and> buffered example_single_open_disk ''netlog.json.inprogress/event_file_0.json'' = 12
   \<and> length ''ab'' + 2 \<le> room example_single_open_disk
   \<and> contents (snd (Flush_event ''ab'' (example_single_open_writer, example_single_open_disk)))
         ''netlog.json.inprogress/event_file_0.json'' = ''ab,\<newline>456789,\<newline>''
   \<and> current_event_file_number
         (fst (Flush_event ''ab'' (example_single_open_writer, example_single_open_disk))) = 2\<close>
  proof -
    have chunk: "GetEventFilePath example_single_open_writer
                   (FileNumberToIndex example_single_open_writer 2)
                 = ''netlog.json.inprogress/event_file_0.json''"
      by (simp add: example_single_open_writer_def example_single_writer_def FileWriter_new_def
          GetEventFilePath_def GetInprogressDirectory_def FileNumberToIndex_def
          SizeTToString_def decimal.simps)
    have bounded: "IsBounded example_single_open_writer"
      by (simp add: example_single_open_writer_def example_single_writer_def FileWriter_new_def
          IsBounded_def IsUnbounded_def kNoLimit_def)
    have state: "rotates example_single_open_writer"
      "current_event_file example_single_open_writer
         = Some ''netlog.json.inprogress/event_file_0.json''"
      "current_event_file_number example_single_open_writer = 1"
      by (simp_all add: example_single_open_writer_def example_single_writer_def
          FileWriter_new_def rotates_def)
    have disk: "openable example_single_open_disk ''netlog.json.inprogress/event_file_0.json''"
      "buffered example_single_open_disk ''netlog.json.inprogress/event_file_0.json'' = 12"
      "pos example_single_open_disk ''netlog.json.inprogress/event_file_0.json'' = 12"
      "buffer_text example_single_open_disk ''netlog.json.inprogress/event_file_0.json''
         = ''0123456789,\<newline>''"
      "room example_single_open_disk = 988"
      by (simp_all add: example_single_open_disk_def example_disk_def buffered_def BUFSIZ_def
          buffer_text_def contents_def)
    show ?thesis
      using flush_rotates_before_write [OF bounded, of "''ab''" example_single_open_disk _ _
          "''{}''"]
        bounded state disk
      by (simp add: Let_def chunk write_at_def del: Flush_event_fields)
  qed
  show ?thesis
    by (rule conjI [OF rotating conjI [OF appending ring_of_one]])
qed
section \<open>Construction: chunk size and queue cap\<close>

text \<open>
  C5, as the source computes it. With \<open>N\<close> chunks (\<open>N \<noteq> 0\<close>, the constructor's
  \<^verbatim>\<open>DCHECK_GT\<close>) and a budget \<open>S\<close> other than the sentinel, the chunk limit is
  \<open>S / N\<close>, and the queue cap is \<open>2 \<times> S\<close> whenever that product fits a
  \<^verbatim>\<open>size_t\<close> (\<open>S < 2\<^sup>6\<^sup>3\<close>). With the sentinel \<^verbatim>\<open>kNoLimit\<close> the chunk limit is the
  sentinel, but the queue cap is \<^verbatim>\<open>kNoLimit * 2\<close> in \<^verbatim>\<open>size_t\<close> arithmetic, which is
  \<open>kNoLimit - 1\<close>: the write queue has no sentinel of its own.
\<close>

theorem create_chunk_limit_and_queue_cap:
  fixes S N :: size_t and nc :: 'v
  assumes "N \<noteq> 0"
  shows "let obs = CreateBoundedInternal nc ind lp S N c in
         (S \<noteq> kNoLimit \<longrightarrow>
            unat (max_event_file_size (file_writer obs)) = unat S div unat N
          \<and> (unat S < 2 ^ 63 \<longrightarrow> unat (memory_max (write_queue obs)) = 2 * unat S))
       \<and> (S = kNoLimit \<longrightarrow>
            max_event_file_size (file_writer obs) = kNoLimit
          \<and> memory_max (write_queue obs) = kNoLimit - 1)"
proof -
  have twice: "unat (S * 2) = 2 * unat S" if "unat S < 2 ^ 63"
  proof -
    from that have "unat S * unat (2 :: size_t) < 2 ^ LENGTH(64)" by simp
    then have "unat (S * 2) = unat S * unat (2 :: size_t)"
      by (rule unat_mult_lem [THEN iffD1])
    then show ?thesis by simp
  qed
  show ?thesis
    by (auto simp add: CreateBoundedInternal_def FileNetLogObserver_new_def Let_def
        FileWriter_new_def WriteQueue_new_def unat_div twice kNoLimit_def)
qed

theorem create_chunk_limit_and_queue_cap_witness:
  "(10 :: size_t) \<noteq> 0
   \<and> unat (max_event_file_size (file_writer
             (CreateBoundedInternal () 0 ''netlog.json'' 100 10 None))) = 10
   \<and> unat (memory_max (write_queue
             (CreateBoundedInternal () 0 ''netlog.json'' 100 10 None))) = 200
   \<and> max_event_file_size (file_writer
         (CreateBoundedInternal () 0 ''netlog.json'' kNoLimit 10 None)) = kNoLimit
   \<and> memory_max (write_queue
         (CreateBoundedInternal () 0 ''netlog.json'' kNoLimit 10 None)) = kNoLimit - 1"
proof -
  have n: "(10 :: size_t) \<noteq> 0" by simp
  show ?thesis
    using n
      create_chunk_limit_and_queue_cap [OF n, of "()" 0 "''netlog.json''" 100 None]
      create_chunk_limit_and_queue_cap [OF n, of "()" 0 "''netlog.json''" kNoLimit None]
    by (simp add: Let_def kNoLimit_def)
qed

text \<open>
  C5 as the specification words it fails in unbounded mode: the observer made by
  \<^verbatim>\<open>CreateUnbounded\<close> has a queue cap that is not the sentinel.
\<close>

theorem unbounded_queue_cap_is_not_the_sentinel:
  "\<not> (max_event_file_size (file_writer (CreateUnbounded () 0 ''netlog.json'' None)) = kNoLimit
      \<and> memory_max (write_queue (CreateUnbounded () 0 ''netlog.json'' None)) = kNoLimit)"
  by (simp add: CreateUnbounded_def CreateBounded_def CreateBoundedInternal_def
      FileNetLogObserver_new_def FileWriter_new_def WriteQueue_new_def kNoLimit_def)

section \<open>The flush trigger of OnAddEntry\<close>

text \<open>
  C6. When the entry encodes, \<^verbatim>\<open>OnAddEntry\<close> pushes the text and posts one \<^verbatim>\<open>Flush\<close>
  task exactly when the queue length returned by the push is \<^verbatim>\<open>kNumWriteQueueEvents\<close>,
  which is 15; otherwise it posts nothing. When the encoding fails the observer is left
  as it was: nothing pushed, nothing posted.
\<close>

theorem on_add_entry_posts_flush_at_threshold:
  fixes jw :: "'v JSONWriter"
  shows "let obs' = OnAddEntry jw entry obs;
             pushed = AddEntryToQueue (write_queue obs) (snd (jw entry)) in
         kNumWriteQueueEvents = 15
       \<and> (fst (jw entry) \<longrightarrow>
            write_queue obs' = fst pushed
          \<and> file_writer obs' = file_writer obs
          \<and> (snd pushed = 15 \<longrightarrow> file_task_runner obs' = file_task_runner obs @ [Task_Flush])
          \<and> (snd pushed \<noteq> 15 \<longrightarrow> file_task_runner obs' = file_task_runner obs))
       \<and> (\<not> fst (jw entry) \<longrightarrow> obs' = obs)"
  by (simp add: OnAddEntry_def kNumWriteQueueEvents_def split_def Let_def)

theorem on_add_entry_posts_flush_at_threshold_witness:
  "file_task_runner
     (OnAddEntry (\<lambda>v. (True, v)) ''{}''
        \<lparr>file_task_runner = [],
         write_queue = \<lparr>queue = replicate 14 ''{}'', memory = 28, memory_max = 100\<rparr>,
         file_writer = FileWriter_new ''netlog.json'' 10 10 0\<rparr>) = [Task_Flush]
   \<and> file_task_runner
     (OnAddEntry (\<lambda>v. (True, v)) ''{}''
        \<lparr>file_task_runner = [],
         write_queue = \<lparr>queue = replicate 15 ''{}'', memory = 30, memory_max = 100\<rparr>,
         file_writer = FileWriter_new ''netlog.json'' 10 10 0\<rparr>) = []
   \<and> OnAddEntry (\<lambda>v. (False, v)) ''{}''
        \<lparr>file_task_runner = [],
         write_queue = \<lparr>queue = replicate 14 ''{}'', memory = 28, memory_max = 100\<rparr>,
         file_writer = FileWriter_new ''netlog.json'' 10 10 0\<rparr>
     = \<lparr>file_task_runner = [],
         write_queue = \<lparr>queue = replicate 14 ''{}'', memory = 28, memory_max = 100\<rparr>,
         file_writer = FileWriter_new ''netlog.json'' 10 10 0\<rparr>"
proof -
  have at_15:
    "snd (AddEntryToQueue \<lparr>queue = replicate 14 ''{}'', memory = 28, memory_max = 100\<rparr>
            ''{}'') = 15"
    by code_simp
  have at_16:
    "snd (AddEntryToQueue \<lparr>queue = replicate 15 ''{}'', memory = 30, memory_max = 100\<rparr>
            ''{}'') \<noteq> 15"
    by code_simp
  show ?thesis
  using on_add_entry_posts_flush_at_threshold [of "\<lambda>v. (True, v)" "''{}''"
        "\<lparr>file_task_runner = [],
         write_queue = \<lparr>queue = replicate 14 ''{}'', memory = 28, memory_max = 100\<rparr>,
         file_writer = FileWriter_new ''netlog.json'' 10 10 0\<rparr>"]
    on_add_entry_posts_flush_at_threshold [of "\<lambda>v. (True, v)" "''{}''"
        "\<lparr>file_task_runner = [],
         write_queue = \<lparr>queue = replicate 15 ''{}'', memory = 30, memory_max = 100\<rparr>,
         file_writer = FileWriter_new ''netlog.json'' 10 10 0\<rparr>"]
    on_add_entry_posts_flush_at_threshold [of "\<lambda>v. (False, v)" "''{}''"
        "\<lparr>file_task_runner = [],
         write_queue = \<lparr>queue = replicate 14 ''{}'', memory = 28, memory_max = 100\<rparr>,
         file_writer = FileWriter_new ''netlog.json'' 10 10 0\<rparr>"]
  by (simp add: Let_def at_15 at_16)
qed

section \<open>The epilogue\<close>

text \<open>
  C7. \<^verbatim>\<open>WritePolledDataToFile\<close> writes the byte \<^verbatim>\<open>]\<close>, then the \<^verbatim>\<open>polledData\<close> clause
  whenever \<^verbatim>\<open>JSONWriter::Write\<close> left text in the string, then the closing brace and a
  newline: it does not test what \<^verbatim>\<open>JSONWriter::Write\<close> returns. The specification has
  the clause if and only if the polled data is present and encodes to a JSON string that
  is not empty, and the comment on \<^verbatim>\<open>Stop\<close> in the source says that polled data which
  cannot be converted to proper JSON is ignored. The two differ on polled data for which
  the encoder fails after it has produced some text. For such a value, here with the text
  \<^verbatim>\<open>{"a":}\<close> of a dictionary whose one value could not be encoded, \<^verbatim>\<open>Stop\<close> of an
  unbounded writer leaves the clause with the failed text in the final file, which no
  longer parses as JSON; the epilogue of the specification for that value is the three
  bytes \<^verbatim>\<open>]}\<close> and newline.
\<close>

theorem stop_writes_failed_polled_data:
  \<open>\<not> fst (example_failing_encoder ''{"a":}'')
   \<and> epilogue example_failing_encoder (Some ''{"a":}'') = '']}\<newline>''
   \<and> contents (snd (Stop example_failing_encoder (Some ''{"a":}'')
                       (example_unbounded_writer, example_unbounded_disk))) ''netlog.json''
       = ''[\<newline>E],\<newline>"polledData": {"a":}\<newline>}\<newline>''
   \<and> contents (snd (Stop example_failing_encoder (Some ''{"a":}'')
                       (example_unbounded_writer, example_unbounded_disk))) ''netlog.json''
       \<noteq> ''[\<newline>E'' @ epilogue example_failing_encoder (Some ''{"a":}'')\<close>
proof -
  have text_written:
    \<open>closing_text example_failing_encoder (Some ''{"a":}'')
       = ''],\<newline>"polledData": {"a":}\<newline>}\<newline>''\<close>
    by (simp add: closing_text_def example_failing_encoder_def)
  have stop: \<open>contents (snd (Stop example_failing_encoder (Some ''{"a":}'')
                       (example_unbounded_writer, example_unbounded_disk))) ''netlog.json''
       = ''[\<newline>E],\<newline>"polledData": {"a":}\<newline>}\<newline>''\<close>
    by (simp add: Stop_def example_unbounded_writer_def example_unbounded_disk_def
        example_disk_def FileWriter_new_def IsBounded_def IsUnbounded_def
        RewindIfWroteEventBytes_def fseek_end_minus2_def contents_def
        WritePolledDataToFile_fits text_written write_at_def)
  have worded: \<open>epilogue example_failing_encoder (Some ''{"a":}'') = '']}\<newline>''\<close>
    by (simp add: epilogue_def example_failing_encoder_def)
  have failed: \<open>\<not> fst (example_failing_encoder ''{"a":}'')\<close>
    by (simp add: example_failing_encoder_def)
  from failed worded stop show ?thesis
    by simp
qed
section \<open>A run without event bytes\<close>


section \<open>Null handles\<close>

text \<open>
  C9. \<^verbatim>\<open>WriteToFile\<close> on a null handle writes nothing and returns 0, whatever the data;
  so do the helpers that write through it. No operation of the writer is undefined on a
  null handle: the primitives of the model take a non-null stream, and each call of
  one stands behind the null test the source makes. The operations go on to their end:
  in unbounded mode with the final file not open, \<^verbatim>\<open>Flush\<close> empties the queue and
  leaves disk and writer as they were (the events are lost), and \<^verbatim>\<open>Stop\<close> changes
  nothing; in bounded mode on a disk where nothing opens, \<^verbatim>\<open>Flush\<close> empties the queue
  and leaves the disk and the \<^verbatim>\<open>wrote_event_bytes_\<close> flag as they were, and \<^verbatim>\<open>Stop\<close>
  runs the stitching to its last step, the removal of the in-progress directory.
\<close>

theorem null_handle_writes_nothing:
  "WriteToFile None data1 data2 data3 d = (0, d)
   \<and> WriteConstantsToFile jw constants None d = d
   \<and> WritePolledDataToFile jw polled_data None d = d
   \<and> RewindIfWroteEventBytes fw None d = d
   \<and> copy_chunks n None source d = d
   \<and> (\<not> IsBounded fw \<and> final_log_file fw = None \<longrightarrow>
        Flush wq (fw, d) = (wq\<lparr>queue := [], memory := 0\<rparr>, fw, d)
      \<and> Stop jw polled_data (fw, d) = (fw, d))
   \<and> (IsBounded fw \<and> (\<forall>p. \<not> openable d p) \<and> current_event_file fw = None \<longrightarrow>
        fst (Flush wq (fw, d)) = wq\<lparr>queue := [], memory := 0\<rparr>
      \<and> snd (snd (Flush wq (fw, d))) = d
      \<and> current_event_file (fst (snd (Flush wq (fw, d)))) = None
      \<and> wrote_event_bytes (fst (snd (Flush wq (fw, d)))) = wrote_event_bytes fw
      \<and> Stop jw polled_data (fw, d)
          = (fw\<lparr>current_event_file := None, final_log_file := None\<rparr>,
             DeleteFile (GetInprogressDirectory fw) True d))"
proof -
  have prims: "WriteToFile None data1 data2 data3 d = (0, d)"
    "WriteConstantsToFile jw constants None d = d"
    "WritePolledDataToFile jw polled_data None d = d"
    "RewindIfWroteEventBytes fw None d = d"
    "copy_chunks n None source d = d"
    by (simp_all add: WriteConstantsToFile_def RewindIfWroteEventBytes_def)
  have unbounded: "Flush wq (fw, d) = (wq\<lparr>queue := [], memory := 0\<rparr>, fw, d)
      \<and> Stop jw polled_data (fw, d) = (fw, d)"
    if "\<not> IsBounded fw" "final_log_file fw = None"
    using that
    by (simp add: Flush_def SwapQueue_def Flush_loop_unbounded_null Stop_def
        RewindIfWroteEventBytes_def)
  have bounded: "fst (Flush wq (fw, d)) = wq\<lparr>queue := [], memory := 0\<rparr>
      \<and> snd (snd (Flush wq (fw, d))) = d
      \<and> current_event_file (fst (snd (Flush wq (fw, d)))) = None
      \<and> wrote_event_bytes (fst (snd (Flush wq (fw, d)))) = wrote_event_bytes fw
      \<and> Stop jw polled_data (fw, d)
          = (fw\<lparr>current_event_file := None, final_log_file := None\<rparr>,
             DeleteFile (GetInprogressDirectory fw) True d)"
    if b: "IsBounded fw" and c: "\<forall>p. \<not> openable d p" and h: "current_event_file fw = None"
  proof -
    from Flush_loop_bounded_unopenable [OF b c h, of "queue wq"]
    have "fst (Flush wq (fw, d)) = wq\<lparr>queue := [], memory := 0\<rparr>
      \<and> snd (snd (Flush wq (fw, d))) = d
      \<and> current_event_file (fst (snd (Flush wq (fw, d)))) = None
      \<and> wrote_event_bytes (fst (snd (Flush wq (fw, d)))) = wrote_event_bytes fw"
      by (simp add: Flush_def SwapQueue_def)
    moreover have "Stop jw polled_data (fw, d)
          = (fw\<lparr>current_event_file := None, final_log_file := None\<rparr>,
             DeleteFile (GetInprogressDirectory fw) True d)"
      using b c by (simp add: Stop_def StitchFinalLogFile_unopenable)
    ultimately show ?thesis by blast
  qed
  from prims unbounded bounded show ?thesis by blast
qed

theorem null_handle_writes_nothing_witness:
  "WriteToFile None ''{}'' '',\<newline>'' [] example_disk = (0, example_disk)
   \<and> IsBounded example_bounded_writer
   \<and> (\<forall>p. \<not> openable example_closed_disk p)
   \<and> current_event_file example_bounded_writer = None
   \<and> fst (Flush example_queue (example_bounded_writer, example_closed_disk))
       = \<lparr>queue = [], memory = 0, memory_max = 100\<rparr>
   \<and> snd (snd (Flush example_queue (example_bounded_writer, example_closed_disk)))
       = example_closed_disk
   \<and> \<not> wrote_event_bytes
         (fst (snd (Flush example_queue (example_bounded_writer, example_closed_disk))))
   \<and> \<not> IsBounded (FileWriter_new ''netlog.json'' kNoLimit 10 0)
   \<and> final_log_file (FileWriter_new ''netlog.json'' kNoLimit 10 0) = None
   \<and> Flush example_queue (FileWriter_new ''netlog.json'' kNoLimit 10 0, example_disk)
       = (\<lparr>queue = [], memory = 0, memory_max = 100\<rparr>,
          FileWriter_new ''netlog.json'' kNoLimit 10 0, example_disk)"
proof -
  have bounded: "IsBounded example_bounded_writer"
    "current_event_file example_bounded_writer = None"
    "\<not> wrote_event_bytes example_bounded_writer"
    by (simp_all add: example_bounded_writer_def FileWriter_new_def IsBounded_def
        IsUnbounded_def kNoLimit_def)
  have closed: "\<forall>p. \<not> openable example_closed_disk p"
    by (simp add: example_closed_disk_def)
  have unbounded: "\<not> IsBounded (FileWriter_new ''netlog.json'' kNoLimit 10 0)"
    "final_log_file (FileWriter_new ''netlog.json'' kNoLimit 10 0) = None"
    by (simp_all add: FileWriter_new_def IsBounded_def IsUnbounded_def)
  show ?thesis
    using bounded closed unbounded
      null_handle_writes_nothing [of "''{}''" "'',\<newline>''" "[]" example_disk
        example_encoder "''{}''" None example_bounded_writer 1 "[]" example_queue]
      null_handle_writes_nothing [of "''{}''" "'',\<newline>''" "[]" example_closed_disk
        example_encoder "''{}''" None example_bounded_writer 1 "[]" example_queue]
      null_handle_writes_nothing [of "''{}''" "'',\<newline>''" "[]" example_disk
        example_encoder "''{}''" None "FileWriter_new ''netlog.json'' kNoLimit 10 0" 1 "[]"
        example_queue]
    by (simp add: example_queue_def)
qed

section \<open>The invariant of the write queue\<close>

text \<open>
  C10, as the source has it. The counter \<^verbatim>\<open>memory_\<close> holds the sum of the sizes of the
  strings in \<^verbatim>\<open>queue_\<close>: after construction, after every \<^verbatim>\<open>AddEntryToQueue\<close> (whose
  event fits in memory beside the queued ones) and after every \<^verbatim>\<open>SwapQueue\<close> with the
  empty local queue its \<^verbatim>\<open>DCHECK\<close> asks for. So the counter is zero whenever the queue
  is empty, and when no queued string is empty it is zero only then. The subtraction in
  the drop loop never underflows: the front's size is at most the counter, and the
  invariant holds again after the front is dropped.
\<close>

theorem write_queue_counter_is_bytes_queued:
  "wq_inv (WriteQueue_new cap)
   \<and> (wq_inv q \<and> queue_bytes (queue q) + length event < 2 ^ 64 \<longrightarrow>
        wq_inv (fst (AddEntryToQueue q event)))
   \<and> wq_inv (fst (SwapQueue q []))
   \<and> (wq_inv q \<longrightarrow>
        (queue q = [] \<longrightarrow> memory q = 0)
      \<and> ((\<forall>e\<in>set (queue q). e \<noteq> []) \<and> memory q = 0 \<longrightarrow> queue q = []))
   \<and> (wq_inv q \<and> queue q \<noteq> [] \<longrightarrow>
        string_size (hd (queue q)) \<le> memory q
      \<and> unat (memory q - string_size (hd (queue q)))
          = unat (memory q) - length (hd (queue q))
      \<and> wq_inv (q\<lparr>memory := memory q - string_size (hd (queue q)),
                     queue := tl (queue q)\<rparr>))"
proof -
  have new: "wq_inv (WriteQueue_new cap)"
    by (simp add: wq_inv_def WriteQueue_new_def)
  have push: "wq_inv (fst (AddEntryToQueue q event))"
    if "wq_inv q" "queue_bytes (queue q) + length event < 2 ^ 64"
    using AddEntryToQueue_spec [OF that] by blast
  have swap: "wq_inv (fst (SwapQueue q []))"
    by (simp add: wq_inv_def SwapQueue_def)
  have empty: "memory q = 0" if "wq_inv q" "queue q = []"
    using that by (simp add: wq_inv_def unat_eq_0)
  have nonempty: "queue q = []"
    if inv: "wq_inv q" and ne: "\<forall>e\<in>set (queue q). e \<noteq> []" and zero: "memory q = 0"
  proof (cases "queue q")
    case Nil
    then show ?thesis .
  next
    case (Cons e es)
    with ne have "0 < length e" by simp
    with inv zero Cons show ?thesis by (simp add: wq_inv_def)
  qed
  have sub: "string_size (hd (queue q)) \<le> memory q
      \<and> unat (memory q - string_size (hd (queue q)))
          = unat (memory q) - length (hd (queue q))
      \<and> wq_inv (q\<lparr>memory := memory q - string_size (hd (queue q)),
                     queue := tl (queue q)\<rparr>)"
    if inv: "wq_inv q" and ne: "queue q \<noteq> []"
  proof -
    from ne obtain e es where q: "queue q = e # es" by (cases "queue q") auto
    have mem: "unat (memory q) = length e + queue_bytes es"
      using inv q by (simp add: wq_inv_def)
    then have "length e \<le> unat (memory q)" by simp
    then have size: "unat (string_size e) = length e"
      by (simp add: string_size_def le_unat_uoi)
    then have le: "string_size e \<le> memory q"
      using mem by (simp add: word_le_nat_alt)
    then have "unat (memory q - string_size e) = unat (memory q) - unat (string_size e)"
      by (rule unat_sub)
    with mem size le q show ?thesis by (simp add: wq_inv_def)
  qed
  from new push swap empty nonempty sub show ?thesis by blast
qed


theorem write_queue_counter_is_bytes_queued_witness:
  \<open>(wq_inv \<lparr>queue = [''ab'', ''cd''], memory = 4, memory_max = 5\<rparr>
   \<and> queue_bytes [''ab'', ''cd''] + length ''efg'' < 2 ^ 64
   \<and> wq_inv (fst (AddEntryToQueue
         \<lparr>queue = [''ab'', ''cd''], memory = 4, memory_max = 5\<rparr> ''efg''))
   \<and> wq_inv (fst (SwapQueue \<lparr>queue = [''ab'', ''cd''], memory = 4, memory_max = 5\<rparr> []))
   \<and> string_size ''ab'' \<le> 4
   \<and> wq_inv \<lparr>queue = [''cd''], memory = 2, memory_max = 5\<rparr>)
   \<and> (wq_inv (WriteQueue_new 5)
   \<and> queue (WriteQueue_new 5) = []
   \<and> memory (WriteQueue_new 5) = 0
   \<and> queue \<lparr>queue = [''ab'', ''cd''], memory = 4, memory_max = 5\<rparr> \<noteq> []
   \<and> unat (4 - string_size ''ab'') = unat (4 :: size_t) - length ''ab'')\<close>
proof -
  have held:
    \<open>wq_inv \<lparr>queue = [''ab'', ''cd''], memory = 4, memory_max = 5\<rparr>
   \<and> queue_bytes [''ab'', ''cd''] + length ''efg'' < 2 ^ 64
   \<and> wq_inv (fst (AddEntryToQueue
         \<lparr>queue = [''ab'', ''cd''], memory = 4, memory_max = 5\<rparr> ''efg''))
   \<and> wq_inv (fst (SwapQueue \<lparr>queue = [''ab'', ''cd''], memory = 4, memory_max = 5\<rparr> []))
   \<and> string_size ''ab'' \<le> 4
   \<and> wq_inv \<lparr>queue = [''cd''], memory = 2, memory_max = 5\<rparr>\<close>
  proof -
    have inv: "wq_inv \<lparr>queue = [''ab'', ''cd''], memory = 4, memory_max = 5\<rparr>"
      by (simp add: wq_inv_def)
    show ?thesis
      using inv
        write_queue_counter_is_bytes_queued
          [of 5 "\<lparr>queue = [''ab'', ''cd''], memory = 4, memory_max = 5\<rparr>" "''efg''"]
      by (simp add: string_size_def)
  qed
  have empty:
    \<open>wq_inv (WriteQueue_new 5)
   \<and> queue (WriteQueue_new 5) = []
   \<and> memory (WriteQueue_new 5) = 0
   \<and> queue \<lparr>queue = [''ab'', ''cd''], memory = 4, memory_max = 5\<rparr> \<noteq> []
   \<and> unat (4 - string_size ''ab'') = unat (4 :: size_t) - length ''ab''\<close>
  proof -
    have new: "queue (WriteQueue_new 5) = []"
      by (simp add: WriteQueue_new_def)
    have inv: "wq_inv \<lparr>queue = [''ab'', ''cd''], memory = 4, memory_max = 5\<rparr>"
      by (simp add: wq_inv_def)
    show ?thesis
      using new inv
        write_queue_counter_is_bytes_queued [of 5 "WriteQueue_new 5" "''efg''"]
        write_queue_counter_is_bytes_queued
          [of 5 "\<lparr>queue = [''ab'', ''cd''], memory = 4, memory_max = 5\<rparr>" "''efg''"]
      by simp
  qed
  show ?thesis
    by (rule conjI [OF held empty])
qed

text \<open>
  C10 as worded says the counter is zero exactly when the queue is empty. An empty
  string pushed on a new queue stays queued and leaves the counter at zero.
\<close>

theorem counter_zero_with_queue_not_empty:
  "\<not> (let q = fst (AddEntryToQueue (WriteQueue_new 10) []) in
        (memory q = 0) = (queue q = []))"
  by (simp add: AddEntryToQueue_def Let_def drop_oldest.simps string_size_def
      WriteQueue_new_def)

end
